(* ===== verification/Prelude.thy ===== *)
theory Prelude
  imports Main "HOL-Library.Word"
begin

text \<open>
  Shared vocabulary of the development.  The C++ program keeps its counters in
  \<^verbatim>\<open>std::atomic_int\<close> and \<^verbatim>\<open>int\<close> variables; on every target the program
  is built for these are 32-bit two's complement integers, modelled here as
  \<open>int32 = 32 word\<close>: \<open>+\<close> wraps around exactly as the atomic
  \<^verbatim>\<open>fetch_add\<close> does (C++20 [atomics.types.int]: signed atomic arithmetic is
  two's complement with wrap-around), and \<open>sint\<close> reads the value the program
  prints.  The prelude also holds the generic word lemmas the components share and
  the named collections their proofs draw on.
\<close>

type_synonym int32 = "32 word"

abbreviation INT_MAX :: int32 where
  "INT_MAX \<equiv> 0x7FFFFFFF"

abbreviation INT_MIN :: int32 where
  "INT_MIN \<equiv> 0x80000000"

named_theorems step_simps "unfolding rules of the model's step functions"

named_theorems inv_simps "unfolding rules of the model's invariants"

subsection \<open>Signed 32-bit successor\<close>

lemma sint_int32_lower: "- 2147483648 \<le> sint (x :: int32)"
  using sint_ge [of x] by simp

lemma sint_int32_upper: "sint (x :: int32) \<le> 2147483647"
  using sint_lt [of x] by simp

lemma sint_succ_no_overflow:
  assumes "sint (x :: int32) < 2147483647"
  shows "sint (x + 1) = sint x + 1"
proof -
  have "- (2 ^ 31) \<le> sint x" using sint_int32_lower [of x] by simp
  with assms show ?thesis
    by (simp add: sint_word_ariths signed_take_bit_int_eq_self)
qed

lemma sint_succ_iff_no_overflow:
  "sint ((x :: int32) + 1) = sint x + 1 \<longleftrightarrow> x \<noteq> INT_MAX"
proof
  assume eq: "sint (x + 1) = sint x + 1"
  show "x \<noteq> INT_MAX"
  proof
    assume "x = INT_MAX"
    with eq show False by simp
  qed
next
  assume ne: "x \<noteq> INT_MAX"
  have "sint x \<noteq> 2147483647"
  proof
    assume "sint x = 2147483647"
    then have "sint x = sint (INT_MAX)" by simp
    then have "x = INT_MAX" by (rule signed_word_eqI)
    with ne show False by simp
  qed
  with sint_int32_upper [of x] have "sint x < 2147483647" by simp
  then show "sint (x + 1) = sint x + 1" by (rule sint_succ_no_overflow)
qed

lemma int32_succ_wraps: "INT_MAX + 1 = INT_MIN"
  by simp

lemma sint_INT_MIN: "sint INT_MIN = - 2147483648"
  by simp

text \<open>\<open>k\<close> successive increments, read as a signed value, add \<open>k\<close> while no
  intermediate value reaches \<open>INT_MAX\<close>.\<close>

lemma sint_add_of_nat_no_overflow:
  "sint (x :: int32) + int k \<le> 2147483647 \<Longrightarrow> sint (x + of_nat k) = sint x + int k"
proof (induction k)
  case 0
  then show ?case by simp
next
  case (Suc k)
  then have IH: "sint (x + of_nat k) = sint x + int k" by simp
  with Suc.prems have "sint (x + of_nat k) < 2147483647" by simp
  then have "sint (x + of_nat k + 1) = sint (x + of_nat k) + 1"
    by (rule sint_succ_no_overflow)
  with IH show ?case by (simp add: ac_simps)
qed

subsection \<open>Counting in updated lists\<close>

text \<open>How a list update changes the number of elements with a property: the
  count of a family of threads in some state after one thread moved.\<close>

lemma length_filter_update:
  "i < length xs \<Longrightarrow>
   length (filter P (xs[i := x])) + (if P (xs ! i) then 1 else 0) =
   length (filter P xs) + (if P x then 1 else 0)"
proof (induction xs arbitrary: i)
  case Nil
  then show ?case by simp
next
  case (Cons y ys)
  then show ?case by (cases i) auto
qed

lemma length_filter_disjoint_cover:
  "list_all (\<lambda>x. P x \<or> Q x) xs \<Longrightarrow> list_all (\<lambda>x. \<not> (P x \<and> Q x)) xs \<Longrightarrow>
   length (filter P xs) + length (filter Q xs) = length xs"
  by (induction xs) auto

subsection \<open>The three workers\<close>

lemma all_less_three: "(\<forall>k<(3::nat). P k) \<longleftrightarrow> P 0 \<and> P 1 \<and> P 2"
  by (auto simp: less_Suc_eq numeral_3_eq_3 numeral_2_eq_2)

lemma length_three_cases:
  "length xs = 3 \<Longrightarrow> \<exists>a b c. xs = [a, b, c]"
  by (auto simp: numeral_3_eq_3 length_Suc_conv)

lemma less_three_cases_nat: "k < (3::nat) \<Longrightarrow> k = 0 \<or> k = 1 \<or> k = 2"
  by auto

lemma nth_update_at: "k < length xs \<Longrightarrow> xs[i := x] ! k = (if i = k then x else xs ! k)"
  by (cases "i = k") simp_all

end
