(* ===== verification/Atomic.thy ===== *)
theory Atomic
  imports Prelude
begin

text \<open>
  The \<^verbatim>\<open>std::atomic\<close> member functions the program calls, each as one
  indivisible step on a single memory location, as the sequentially consistent
  interleaving reads them: every atomic access is one step of one thread and the
  steps of all threads are interleaved in some order, each load reading the latest
  value.  This reading is exact for \<^verbatim>\<open>main_seqcst_padding.cpp\<close>, whose
  accesses are all \<^verbatim>\<open>seq_cst\<close>.  \<^verbatim>\<open>main.cpp\<close> asks for
  release/acquire and relaxed orders, under which a load may also read an older
  value; that is modelled in \<open>Memory\<close> and \<open>WeakDriver\<close>, which also show
  that the interleavings are among its executions.

  A weak compare-and-swap may fail although the object holds the expected value.
  Whether a particular call fails spuriously is a choice of the hardware; the model
  takes it as an explicit argument \<open>spurious\<close>, so that a run of the program is
  determined by the schedule and by these choices.
\<close>

text \<open>\<^verbatim>\<open>obj.fetch_add(arg)\<close>: returns the old value and stores
  \<open>obj + arg\<close>, wrapping around at 32 bits.\<close>

definition fetch_add :: "int32 \<Rightarrow> int32 \<Rightarrow> int32 \<times> int32" where
  "fetch_add obj arg = (obj, obj + arg)"

text \<open>\<^verbatim>\<open>obj.compare_exchange_weak(expected, desired)\<close>: the result is the
  returned flag, the new value of the object and the new value of the
  \<^verbatim>\<open>expected\<close> variable (passed by reference; on failure it receives the
  value the object holds).\<close>

definition compare_exchange_weak ::
  "bool \<Rightarrow> 'a \<Rightarrow> 'a \<Rightarrow> 'a \<Rightarrow> bool \<times> 'a \<times> 'a" where
  "compare_exchange_weak spurious obj expected desired =
     (if obj = expected \<and> \<not> spurious then (True, desired, expected)
      else (False, obj, obj))"

subsection \<open>Behaviour of the primitives\<close>

lemma fetch_add_returns_old [simp]: "fst (fetch_add v d) = v"
  by (simp add: fetch_add_def)

lemma fetch_add_stores_sum [simp]: "snd (fetch_add v d) = v + d"
  by (simp add: fetch_add_def)

lemma cas_success_iff:
  "fst (compare_exchange_weak sp obj e d) \<longleftrightarrow> obj = e \<and> \<not> sp"
  by (simp add: compare_exchange_weak_def)

lemma cas_success_stores:
  "compare_exchange_weak sp obj e d = (True, obj', e') \<Longrightarrow> obj' = d \<and> e' = e \<and> obj = e"
  by (simp add: compare_exchange_weak_def split: if_splits)

lemma cas_failure_keeps:
  "compare_exchange_weak sp obj e d = (False, obj', e') \<Longrightarrow> obj' = obj \<and> e' = obj"
  by (auto simp: compare_exchange_weak_def split: if_splits)

text \<open>A failure with an unchanged object value is spurious: it can only happen when
  the hardware chose to fail.\<close>

lemma cas_failure_spurious:
  "compare_exchange_weak sp obj e d = (False, obj', e') \<Longrightarrow> obj = e \<Longrightarrow> sp"
  by (simp add: compare_exchange_weak_def split: if_splits)

text \<open>Without a spurious failure the weak CAS is the strong one.\<close>

lemma cas_not_spurious:
  "compare_exchange_weak False obj e d =
     (if obj = e then (True, d, e) else (False, obj, obj))"
  by (simp add: compare_exchange_weak_def)

text \<open>The shape in which the program uses it: setting a Boolean flag to
  \<open>True\<close>.  Whenever the retry condition \<^verbatim>\<open>!cas(...) && !expected\<close> is
  false, the flag is set.\<close>

lemma cas_true_exit_sets:
  "compare_exchange_weak sp c fw True = (ok, c', fw') \<Longrightarrow> ok \<or> fw' \<Longrightarrow> c'"
  by (auto simp: compare_exchange_weak_def split: if_splits)

lemma cas_true_monotone:
  "compare_exchange_weak sp c fw True = (ok, c', fw') \<Longrightarrow> c \<Longrightarrow> c'"
  by (auto simp: compare_exchange_weak_def split: if_splits)

lemmas cas_bool_facts = cas_true_exit_sets cas_true_monotone cas_failure_keeps
  cas_success_stores

end
