(* ===== verification/Worker.thy ===== *)
theory Worker
  imports Atomic
begin

text \<open>
  The worker, class \<^verbatim>\<open>Foo\<close> of \<^verbatim>\<open>src/main.cpp\<close> (lines 12--48) and of
  \<^verbatim>\<open>src/main_seqcst_padding.cpp\<close> (lines 12--48), with its background function
  \<^verbatim>\<open>do_thing\<close> (lines 59--65 of both files).  A \<open>foo\<close> record is one
  object: its counter \<^verbatim>\<open>m_v\<close>, whether the counter's lifetime has begun, the
  position of the thread running \<^verbatim>\<open>do_thing(*this)\<close>, whether that
  \<^verbatim>\<open>std::thread\<close> is joinable, and whether the thread has touched the counter
  before its initialiser ran (undefined behaviour in C++).

  The two source files declare the members in different orders, and C++ constructs
  members in declaration order, so the constructor runs its three actions in a
  different order in each: \<open>ctor_order\<close>.
\<close>

subsection \<open>State\<close>

text \<open>Where the thread running \<^verbatim>\<open>do_thing\<close> is: not yet started, about to
  load the stop flag (the loop condition, line 61), about to call
  \<^verbatim>\<open>do_work\<close> (line 63), or returned.\<close>

datatype task_pc = NotStarted | Check | Work | Finished

text \<open>Member layout: \<^verbatim>\<open>main.cpp\<close> declares \<^verbatim>\<open>m_thread\<close> before
  \<^verbatim>\<open>m_v\<close> (lines 46--47); \<^verbatim>\<open>main_seqcst_padding.cpp\<close> declares
  \<^verbatim>\<open>m_v\<close> before \<^verbatim>\<open>m_thread\<close> (lines 44--47).\<close>

datatype layout = ThreadFirst | CounterFirst

record foo =
  m_v :: int32
  m_v_live :: bool
  m_thread :: task_pc
  joinable :: bool
  uninit_access :: bool

text \<open>The storage of an object before its constructor runs.  Its bytes are
  indeterminate in C++; the model fixes them to 0, and records any access to the
  counter before its initialiser in \<open>uninit_access\<close>.\<close>

definition foo_raw :: foo where
  "foo_raw = \<lparr>m_v = 0, m_v_live = False, m_thread = NotStarted, joinable = False,
              uninit_access = False\<rparr>"

subsection \<open>Operations\<close>

text \<open>\<^verbatim>\<open>do_work()\<close>: \<^verbatim>\<open>m_v.fetch_add(1)\<close>.\<close>

definition foo_do_work :: "foo \<Rightarrow> foo" where
  "foo_do_work f =
     f\<lparr>m_v := snd (fetch_add (m_v f) 1),
       uninit_access := (uninit_access f \<or> \<not> m_v_live f)\<rparr>"

text \<open>\<^verbatim>\<open>count()\<close>: \<^verbatim>\<open>m_v.load()\<close>.\<close>

definition foo_count :: "foo \<Rightarrow> int32" where
  "foo_count f = m_v f"

text \<open>The constructor \<^verbatim>\<open>Foo(int i)\<close>: the default member initialiser
  \<^verbatim>\<open>m_v{0}\<close>, the member initialiser of \<^verbatim>\<open>m_thread\<close> that starts the
  thread, and the body \<^verbatim>\<open>m_v.store(i)\<close>.\<close>

datatype ctor_action = InitCounter | SpawnThread | StoreSeed

fun ctor_order :: "layout \<Rightarrow> ctor_action list" where
  "ctor_order ThreadFirst = [SpawnThread, InitCounter, StoreSeed]"
| "ctor_order CounterFirst = [InitCounter, SpawnThread, StoreSeed]"

fun foo_ctor_step :: "int32 \<Rightarrow> ctor_action \<Rightarrow> foo \<Rightarrow> foo" where
  "foo_ctor_step i InitCounter f = f\<lparr>m_v := 0, m_v_live := True\<rparr>"
| "foo_ctor_step i SpawnThread f = f\<lparr>m_thread := Check, joinable := True\<rparr>"
| "foo_ctor_step i StoreSeed f = f\<lparr>m_v := i\<rparr>"

text \<open>The constructor run without interference from the thread it starts.\<close>

definition foo_new :: "layout \<Rightarrow> int32 \<Rightarrow> foo" where
  "foo_new l i = fold (foo_ctor_step i) (ctor_order l) foo_raw"

text \<open>One atomic step of \<^verbatim>\<open>do_thing\<close>, given the value \<open>c\<close> the step
  reads from the stop flag \<^verbatim>\<open>Foo::m_cond\<close>: the loop test loads the flag and
  leaves the loop when it is set; the body calls \<^verbatim>\<open>do_work\<close>.\<close>

fun do_thing_step :: "bool \<Rightarrow> foo \<Rightarrow> foo" where
  "do_thing_step c f =
     (case m_thread f of
        Check \<Rightarrow> f\<lparr>m_thread := (if c then Finished else Work)\<rparr>
      | Work \<Rightarrow> (foo_do_work f)\<lparr>m_thread := Check\<rparr>
      | _ \<Rightarrow> f)"

text \<open>The whole loop of \<^verbatim>\<open>do_thing\<close>, given the values \<open>cond k\<close> that its
  successive loop tests read.  It returns only when one of them reads \<open>True\<close>:
  \<open>None\<close> is the busy loop that never ends.\<close>

partial_function (option) do_thing_loop ::
  "(nat \<Rightarrow> bool) \<Rightarrow> nat \<Rightarrow> foo \<Rightarrow> foo option" where
  "do_thing_loop cond k f =
     (if cond k then Some f else do_thing_loop cond (Suc k) (foo_do_work f))"

text \<open>The destructor \<^verbatim>\<open>~Foo()\<close>: \<^verbatim>\<open>if (m_thread.joinable())
  m_thread.join();\<close>.  \<open>None\<close> means that the call blocks: \<^verbatim>\<open>join\<close>
  waits until the thread has returned.\<close>

definition foo_dtor :: "foo \<Rightarrow> foo option" where
  "foo_dtor f =
     (if joinable f then
        (if m_thread f = Finished then Some (f\<lparr>joinable := False\<rparr>) else None)
      else Some f)"

text \<open>The abstract counter of the specification: an unbounded integer that
  \<open>advance\<close> increases by one.\<close>

definition abs_counter :: "foo \<Rightarrow> int" where
  "abs_counter f = sint (m_v f)"

definition abs_advance :: "int \<Rightarrow> int" where
  "abs_advance n = n + 1"

subsection \<open>Construction\<close>

lemma foo_new_fields [simp]:
  "m_v (foo_new l i) = i" "m_v_live (foo_new l i)" "m_thread (foo_new l i) = Check"
  "joinable (foo_new l i)" "\<not> uninit_access (foo_new l i)"
  by (cases l; simp add: foo_new_def foo_raw_def)+

lemma foo_count_new [simp]: "foo_count (foo_new l i) = i"
  by (simp add: foo_count_def)

subsection \<open>The counter\<close>

lemma foo_do_work_m_v [simp]: "m_v (foo_do_work f) = m_v f + 1"
  by (simp add: foo_do_work_def)

lemma foo_do_work_frame [simp]:
  "m_v_live (foo_do_work f) = m_v_live f" "m_thread (foo_do_work f) = m_thread f"
  "joinable (foo_do_work f) = joinable f"
  "uninit_access (foo_do_work f) = (uninit_access f \<or> \<not> m_v_live f)"
  by (simp_all add: foo_do_work_def)

lemma foo_do_work_funpow_m_v:
  "m_v ((foo_do_work ^^ k) f) = m_v f + of_nat k"
  by (induction k) (simp_all add: ac_simps)

text \<open>C22: One \<^verbatim>\<open>do_work()\<close> implements the specification's
  \<open>advance\<close> (the abstract counter goes up by exactly one) exactly when the counter
  is not at \<open>INT_MAX\<close>: \<^verbatim>\<open>fetch_add\<close> wraps.\<close>

theorem do_work_refines_advance:
  "abs_counter (foo_do_work f) = abs_advance (abs_counter f) \<longleftrightarrow> foo_count f \<noteq> INT_MAX"
  using sint_succ_iff_no_overflow [of "m_v f"]
  by (simp add: abs_counter_def abs_advance_def foo_count_def)

text \<open>C21: After \<open>k\<close> calls of \<^verbatim>\<open>do_work()\<close> on a counter holding \<open>n\<close>,
  \<^verbatim>\<open>count()\<close> returns \<open>n + k\<close>, provided \<open>n + k\<close> does not pass
  \<open>INT_MAX\<close>.\<close>

theorem count_after_k_advances:
  assumes "sint (foo_count f) + int k \<le> 2147483647"
  shows "sint (foo_count ((foo_do_work ^^ k) f)) = sint (foo_count f) + int k"
  using assms sint_add_of_nat_no_overflow [of "m_v f" k]
  by (simp add: foo_count_def foo_do_work_funpow_m_v)

theorem count_after_k_advances_witness:
  "sint (foo_count (foo_new CounterFirst 1)) + int 10 \<le> 2147483647 \<and>
   sint (foo_count ((foo_do_work ^^ 10) (foo_new CounterFirst 1))) = 11"
  using count_after_k_advances [of "foo_new CounterFirst 1" 10] by simp

text \<open>C23: The specification's invariant ``the counter is non-decreasing'' fails
  exactly at \<open>INT_MAX\<close>: there one \<^verbatim>\<open>do_work()\<close> takes the counter to
  \<open>INT_MIN\<close>.\<close>

theorem do_work_decreases_iff_wrap:
  "sint (foo_count (foo_do_work f)) < sint (foo_count f) \<longleftrightarrow> foo_count f = INT_MAX"
proof (cases "foo_count f = INT_MAX")
  case True
  then show ?thesis by (simp add: foo_count_def)
next
  case False
  then have "sint (m_v f + 1) = sint (m_v f) + 1"
    using sint_succ_iff_no_overflow [of "m_v f"] by (simp add: foo_count_def)
  with False show ?thesis by (simp add: foo_count_def)
qed

theorem do_work_decreases_iff_wrap_witness:
  "sint (foo_count (foo_do_work (foo_new ThreadFirst INT_MAX))) <
   sint (foo_count (foo_new ThreadFirst INT_MAX))"
  using do_work_decreases_iff_wrap [of "foo_new ThreadFirst INT_MAX"] by simp

subsection \<open>The loop of \<^verbatim>\<open>do_thing\<close>\<close>

lemma do_thing_loop_unfold:
  "do_thing_loop cond k f =
     (if cond k then Some f else do_thing_loop cond (Suc k) (foo_do_work f))"
  by (rule do_thing_loop.simps)

text \<open>Partial correctness: whatever the loop returns is the object after as many
  \<^verbatim>\<open>do_work()\<close> calls as loop tests read \<open>False\<close> before the first that
  read \<open>True\<close>.\<close>

lemma do_thing_loop_SomeD:
  assumes ret: "do_thing_loop cond k f = Some f'"
  shows "\<exists>j. cond (k + j) \<and> (\<forall>i<j. \<not> cond (k + i)) \<and> f' = (foo_do_work ^^ j) f"
proof (rule do_thing_loop.raw_induct
    [where P = "\<lambda>cond k f f'. \<exists>j. cond (k + j) \<and> (\<forall>i<j. \<not> cond (k + i)) \<and>
                                 f' = (foo_do_work ^^ j) f", OF _ ret])
  fix loop cond k f f'
  assume IH: "\<And>cond k f f'. loop cond k f = Some f' \<Longrightarrow>
                \<exists>j. cond (k + j) \<and> (\<forall>i<j. \<not> cond (k + i)) \<and> f' = (foo_do_work ^^ j) f"
    and eq: "(if cond k then Some f else loop cond (Suc k) (foo_do_work f)) = Some f'"
  show "\<exists>j. cond (k + j) \<and> (\<forall>i<j. \<not> cond (k + i)) \<and> f' = (foo_do_work ^^ j) f"
  proof (cases "cond k")
    case True
    with eq show ?thesis by (intro exI [of _ 0]) simp
  next
    case False
    with eq have "loop cond (Suc k) (foo_do_work f) = Some f'" by simp
    then obtain j where j: "cond (Suc k + j)" "\<forall>i<j. \<not> cond (Suc k + i)"
      and f': "f' = (foo_do_work ^^ j) (foo_do_work f)"
      using IH by blast
    have "\<forall>i<Suc j. \<not> cond (k + i)"
    proof (intro allI impI)
      fix i assume "i < Suc j"
      with False j(2) show "\<not> cond (k + i)" by (cases i) simp_all
    qed
    with j(1) f' show ?thesis
      by (intro exI [of _ "Suc j"]) (simp add: funpow_swap1)
  qed
qed

text \<open>C19: Termination and result of \<^verbatim>\<open>do_thing\<close>: if the \<open>j\<close>-th loop test
  is the first to read the stop flag set, the thread returns, having called
  \<^verbatim>\<open>do_work()\<close> exactly \<open>j\<close> times.\<close>

theorem do_thing_loop_returns:
  assumes "cond (k + j)" and "\<forall>i<j. \<not> cond (k + i)"
  shows "do_thing_loop cond k f = Some ((foo_do_work ^^ j) f)"
  using assms
proof (induction j arbitrary: k f)
  case 0
  then show ?case by (simp add: do_thing_loop_unfold)
next
  case (Suc j)
  from Suc.prems(2) have nk: "\<not> cond k" by (metis add_0_right zero_less_Suc)
  have "do_thing_loop cond (Suc k) (foo_do_work f) = Some ((foo_do_work ^^ j) (foo_do_work f))"
    using Suc.prems by (intro Suc.IH) auto
  with nk show ?case by (simp add: do_thing_loop_unfold funpow_swap1)
qed

theorem do_thing_loop_returns_witness:
  "do_thing_loop (\<lambda>i::nat. 3 \<le> i) 0 (foo_new ThreadFirst 1) =
     Some ((foo_do_work ^^ 3) (foo_new ThreadFirst 1))"
  using do_thing_loop_returns [of "\<lambda>i::nat. 3 \<le> i" 0 3 "foo_new ThreadFirst 1"] by simp

text \<open>C20: The busy loop of \<^verbatim>\<open>do_thing\<close> never returns exactly when no loop
  test from the \<open>k\<close>-th on reads the stop flag set: the worker's thread runs until
  the flag is set, and a \<^verbatim>\<open>join\<close> on it would wait for ever otherwise.\<close>

theorem do_thing_loop_diverges_iff:
  "do_thing_loop cond k f = None \<longleftrightarrow> (\<forall>i\<ge>k. \<not> cond i)"
proof
  assume none: "do_thing_loop cond k f = None"
  show "\<forall>i\<ge>k. \<not> cond i"
  proof (rule ccontr)
    assume "\<not> (\<forall>i\<ge>k. \<not> cond i)"
    then have "\<exists>j. cond (k + j)" by (metis le_add_diff_inverse)
    then obtain j where "cond (k + j)" "\<forall>i<j. \<not> cond (k + i)"
      by (auto simp: exists_least_iff [of "\<lambda>j. cond (k + j)"])
    then have "do_thing_loop cond k f = Some ((foo_do_work ^^ j) f)"
      by (rule do_thing_loop_returns)
    with none show False by simp
  qed
next
  assume never: "\<forall>i\<ge>k. \<not> cond i"
  show "do_thing_loop cond k f = None"
  proof (cases "do_thing_loop cond k f")
    case (Some f')
    then obtain j where "cond (k + j)" by (blast dest: do_thing_loop_SomeD)
    with never show ?thesis by simp
  qed
qed

theorem do_thing_loop_diverges_iff_witness:
  "do_thing_loop (\<lambda>_. False) 0 (foo_new ThreadFirst 1) = None"
  using do_thing_loop_diverges_iff [of "\<lambda>_. False" 0 "foo_new ThreadFirst 1"] by simp

subsection \<open>One step of \<^verbatim>\<open>do_thing\<close> and the destructor\<close>

lemma do_thing_step_fields [simp]:
  "m_v (do_thing_step c f) = (if m_thread f = Work then m_v f + 1 else m_v f)"
  "m_thread (do_thing_step c f) =
     (case m_thread f of Check \<Rightarrow> if c then Finished else Work | Work \<Rightarrow> Check | t \<Rightarrow> t)"
  "joinable (do_thing_step c f) = joinable f"
  "m_v_live (do_thing_step c f) = m_v_live f"
  "uninit_access (do_thing_step c f) = (uninit_access f \<or> (m_thread f = Work \<and> \<not> m_v_live f))"
  by (cases "m_thread f"; simp add: foo_do_work_def)+

declare do_thing_step.simps [simp del]

lemma foo_dtor_Some:
  "foo_dtor f = Some f' \<Longrightarrow>
     m_v f' = m_v f \<and> m_thread f' = m_thread f \<and> m_v_live f' = m_v_live f \<and>
     uninit_access f' = uninit_access f \<and> \<not> joinable f'"
  by (auto simp: foo_dtor_def split: if_splits)

end
