(* ===== verification/StopFlag.thy ===== *)
theory StopFlag
  imports Atomic
begin

text \<open>
  The stop coordinator: the static flag \<^verbatim>\<open>Foo::m_cond\<close> (declared at line 43,
  defined \<^verbatim>\<open>false\<close> at line 67 of \<^verbatim>\<open>src/main.cpp\<close>; lines 41 and 67 of
  \<^verbatim>\<open>src/main_seqcst_padding.cpp\<close>) and the sequence that sets it
  (\<^verbatim>\<open>main.cpp\<close> lines 106--115, \<^verbatim>\<open>main_seqcst_padding.cpp\<close> lines
  106--112): load the flag into \<^verbatim>\<open>finish_work\<close>, then retry a weak
  compare-and-swap \<open>finish_work \<rightarrow> true\<close> while it fails and
  \<^verbatim>\<open>finish_work\<close> is still \<open>false\<close>, counting the retries in
  \<^verbatim>\<open>spurious\<close>.

  The code returns no outcome; the specification's \<open>WON\<close> / \<open>ALREADY_STOPPED\<close>
  is defined here from the last CAS of the sequence: the caller won when that CAS
  succeeded on an expected value \<open>false\<close>, i.e. when it performed the transition
  \<open>false \<rightarrow> true\<close>.

  Two models of the sequence: \<open>try_stop\<close>, the sequence run by one thread with no
  other writer (a \<^theory_text>\<open>partial_function\<close> over the hardware's spurious-failure
  choices), and \<open>stop_sys\<close>, any number of threads running it concurrently,
  interleaved one atomic step at a time.
\<close>

datatype stop_outcome = Won | AlreadyStopped

definition stop_outcome_of :: "bool \<Rightarrow> bool \<Rightarrow> stop_outcome" where
  "stop_outcome_of ok expected = (if ok \<and> \<not> expected then Won else AlreadyStopped)"

subsection \<open>One caller\<close>

text \<open>The retry loop of lines 107--115: \<open>sp k\<close> says whether the \<open>k\<close>-th
  CAS attempt fails spuriously.  The result is the last CAS's return value, the
  flag, \<^verbatim>\<open>finish_work\<close> and \<^verbatim>\<open>spurious\<close>.\<close>

partial_function (option) cas_retry_loop ::
  "(nat \<Rightarrow> bool) \<Rightarrow> nat \<Rightarrow> bool \<Rightarrow> bool \<Rightarrow> int \<Rightarrow> (bool \<times> bool \<times> bool \<times> int) option"
where
  "cas_retry_loop sp k cond fw spurious =
     (case compare_exchange_weak (sp k) cond fw True of
        (ok, cond', fw') \<Rightarrow>
          if \<not> ok \<and> \<not> fw' then cas_retry_loop sp (Suc k) cond' fw' (spurious + 1)
          else Some (ok, cond', fw', spurious))"

text \<open>Line 106 loads the flag into \<^verbatim>\<open>finish_work\<close>; the loop follows.
  \<open>n\<close> is the value of \<^verbatim>\<open>spurious\<close> on entry (declared 0 at line 98).\<close>

definition try_stop :: "(nat \<Rightarrow> bool) \<Rightarrow> bool \<Rightarrow> int \<Rightarrow> (bool \<times> bool \<times> bool \<times> int) option" where
  "try_stop sp cond n = cas_retry_loop sp 0 cond cond n"

text \<open>The specification's contract of \<open>try_stop\<close> (section 4.2): the flag ends
  set, and the caller won exactly when it was clear.\<close>

definition abs_try_stop :: "bool \<Rightarrow> bool \<times> stop_outcome" where
  "abs_try_stop cond = (True, if cond then AlreadyStopped else Won)"

subsection \<open>Concurrent callers\<close>

text \<open>Where a caller is: before the load of line 106, in the retry loop with its
  \<^verbatim>\<open>finish_work\<close> and \<^verbatim>\<open>spurious\<close>, or past it with its outcome, the
  last CAS's return value and its retry count.\<close>

datatype caller_pc =
    TS_Load
  | TS_Cas bool int
  | TS_Done stop_outcome bool int

record stop_sys =
  m_cond :: bool
  callers :: "caller_pc list"

definition stop_init :: "nat \<Rightarrow> stop_sys" where
  "stop_init n = \<lparr>m_cond = False, callers = replicate n TS_Load\<rparr>"

text \<open>One atomic step of a caller, given the spurious-failure choice and the flag;
  it returns the new flag and the caller's new position.\<close>

fun caller_step :: "bool \<Rightarrow> bool \<Rightarrow> caller_pc \<Rightarrow> bool \<times> caller_pc" where
  "caller_step sp c TS_Load = (c, TS_Cas c 0)"
| "caller_step sp c (TS_Cas fw n) =
     (case compare_exchange_weak sp c fw True of
        (ok, c', fw') \<Rightarrow>
          if \<not> ok \<and> \<not> fw' then (c', TS_Cas fw' (n + 1))
          else (c', TS_Done (stop_outcome_of ok fw) ok n))"
| "caller_step sp c (TS_Done out ok n) = (c, TS_Done out ok n)"

text \<open>The scheduler picks caller \<open>i\<close> (and the hardware the spurious choice);
  picking no caller leaves the state as it is.\<close>

definition stop_step :: "nat \<Rightarrow> bool \<Rightarrow> stop_sys \<Rightarrow> stop_sys" where
  "stop_step i sp s =
     (if i < length (callers s) then
        (case caller_step sp (m_cond s) (callers s ! i) of
           (c', p') \<Rightarrow> s\<lparr>m_cond := c', callers := (callers s)[i := p']\<rparr>)
      else s)"

fun stop_run :: "(nat \<times> bool) list \<Rightarrow> stop_sys \<Rightarrow> stop_sys" where
  "stop_run [] s = s"
| "stop_run ((i, sp) # evs) s = stop_run evs (stop_step i sp s)"

inductive stop_reach :: "nat \<Rightarrow> stop_sys \<Rightarrow> bool" for n :: nat where
  init: "stop_reach n (stop_init n)"
| step: "stop_reach n s \<Longrightarrow> stop_reach n (stop_step i sp s)"

fun is_won :: "caller_pc \<Rightarrow> bool" where
  "is_won (TS_Done Won _ _) = True"
| "is_won _ = False"

fun is_done :: "caller_pc \<Rightarrow> bool" where
  "is_done (TS_Done _ _ _) = True"
| "is_done _ = False"

fun is_already_stopped :: "caller_pc \<Rightarrow> bool" where
  "is_already_stopped (TS_Done AlreadyStopped _ _) = True"
| "is_already_stopped _ = False"

definition winners :: "stop_sys \<Rightarrow> nat" where
  "winners s = length (filter is_won (callers s))"

subsection \<open>One caller: termination and outcome\<close>

lemma cas_retry_loop_unfold:
  "cas_retry_loop sp k cond fw spurious =
     (case compare_exchange_weak (sp k) cond fw True of
        (ok, cond', fw') \<Rightarrow>
          if \<not> ok \<and> \<not> fw' then cas_retry_loop sp (Suc k) cond' fw' (spurious + 1)
          else Some (ok, cond', fw', spurious))"
  by (rule cas_retry_loop.simps)

text \<open>With the flag clear and no other writer, the loop fails spuriously
  \<open>j\<close> times and then succeeds, having counted \<open>j\<close> retries.\<close>

lemma cas_retry_loop_clear:
  assumes "\<not> sp (k + j)" and "\<forall>i<j. sp (k + i)"
  shows "cas_retry_loop sp k False False m = Some (True, True, False, m + int j)"
  using assms
proof (induction j arbitrary: k m)
  case 0
  then show ?case
    by (simp add: cas_retry_loop_unfold compare_exchange_weak_def)
next
  case (Suc j)
  from Suc.prems(2) have "sp k" by (metis add_0_right zero_less_Suc)
  moreover have "cas_retry_loop sp (Suc k) False False (m + 1) =
                   Some (True, True, False, m + 1 + int j)"
    using Suc.prems by (intro Suc.IH) auto
  ultimately show ?case
    by (simp add: cas_retry_loop_unfold compare_exchange_weak_def)
qed

text \<open>Partial correctness of the loop from a clear flag: if it returns, some
  attempt did not fail spuriously.\<close>

lemma cas_retry_loop_clear_SomeD:
  assumes ret: "cas_retry_loop sp k c fw m = Some r"
  shows "\<not> c \<longrightarrow> \<not> fw \<longrightarrow> (\<exists>j. \<not> sp (k + j))"
proof (rule cas_retry_loop.raw_induct
    [where P = "\<lambda>sp k c fw m r. \<not> c \<longrightarrow> \<not> fw \<longrightarrow> (\<exists>j. \<not> sp (k + j))", OF _ ret])
  fix loop sp k c fw m r
  assume IH: "\<And>sp k c fw m r. loop sp k c fw m = Some r \<Longrightarrow>
                \<not> c \<longrightarrow> \<not> fw \<longrightarrow> (\<exists>j. \<not> sp (k + j))"
    and eq: "(case compare_exchange_weak (sp k) c fw True of
               (ok, cond', fw') \<Rightarrow>
                 if \<not> ok \<and> \<not> fw' then loop sp (Suc k) cond' fw' (m + 1)
                 else Some (ok, cond', fw', m)) = Some r"
  show "\<not> c \<longrightarrow> \<not> fw \<longrightarrow> (\<exists>j. \<not> sp (k + j))"
  proof (intro impI)
    assume c: "\<not> c" and fw: "\<not> fw"
    show "\<exists>j. \<not> sp (k + j)"
    proof (cases "sp k")
      case False
      then show ?thesis by (metis add_0_right)
    next
      case True
      with c fw eq have "loop sp (Suc k) False False (m + 1) = Some r"
        by (simp add: compare_exchange_weak_def)
      then obtain j where "\<not> sp (Suc k + j)" using IH by blast
      then show ?thesis by (metis add_Suc_shift)
    qed
  qed
qed

lemma first_non_spurious:
  "\<not> sp (j0 :: nat) \<Longrightarrow> \<exists>j. \<not> sp j \<and> (\<forall>i<j. sp i)"
  using exists_least_iff [of "\<lambda>j. \<not> sp j"] by blast

text \<open>C14: \<^verbatim>\<open>try_stop\<close> on a clear flag returns once an attempt does not
  fail spuriously: after \<open>j\<close> spurious failures the \<open>j\<close>-th CAS sets the flag,
  the caller wins, and \<^verbatim>\<open>spurious\<close> has grown by exactly \<open>j\<close>.\<close>

theorem try_stop_clear_returns:
  assumes "\<not> sp j" and "\<forall>i<j. sp i"
  shows "try_stop sp False n = Some (True, True, False, n + int j)"
  using cas_retry_loop_clear [of sp 0 j n] assms by (simp add: try_stop_def)

theorem try_stop_clear_returns_witness:
  "try_stop (\<lambda>i. i < 2) False 0 = Some (True, True, False, 2)"
  using try_stop_clear_returns [of "\<lambda>i. i < 2" 2 0] by simp

text \<open>C17: \<^verbatim>\<open>try_stop\<close> on a flag that is already set makes exactly one CAS
  attempt and counts no retry; that CAS reports success (it stores
  \<open>true\<close> over \<open>true\<close>) unless it fails spuriously, so the CAS result does not
  tell a winner from a late caller.\<close>

theorem try_stop_already_set:
  "try_stop sp True n = Some (\<not> sp 0, True, True, n)"
  by (simp add: try_stop_def cas_retry_loop_unfold compare_exchange_weak_def)

text \<open>C15: The retry loop may run for ever, but only by failing spuriously on every
  attempt: from a clear flag \<^verbatim>\<open>try_stop\<close> diverges exactly when every
  CAS attempt fails spuriously.\<close>

theorem try_stop_diverges_iff:
  "try_stop sp False n = None \<longleftrightarrow> (\<forall>i. sp i)"
proof
  assume none: "try_stop sp False n = None"
  show "\<forall>i. sp i"
  proof (rule ccontr)
    assume "\<not> (\<forall>i. sp i)"
    then obtain j where "\<not> sp j" "\<forall>i<j. sp i"
      using first_non_spurious by blast
    then have "try_stop sp False n = Some (True, True, False, n + int j)"
      using cas_retry_loop_clear [of sp 0 j n] by (simp add: try_stop_def)
    with none show False by simp
  qed
next
  assume all: "\<forall>i. sp i"
  show "try_stop sp False n = None"
  proof (cases "try_stop sp False n")
    case (Some r)
    then have "\<exists>j. \<not> sp (0 + j)"
      using cas_retry_loop_clear_SomeD [of sp 0 False False n r] by (simp add: try_stop_def)
    with all show ?thesis by simp
  qed
qed

theorem try_stop_diverges_iff_witness:
  "try_stop (\<lambda>_. True) False 0 = None"
  using try_stop_diverges_iff [of "\<lambda>_. True" 0] by simp

text \<open>C13: Refinement of the specification's \<open>try_stop\<close>: whenever the code's
  sequence returns, the flag is set and the outcome read off its last CAS is the
  abstract one (\<open>WON\<close> exactly when the flag was clear); the retry counter never
  decreases.\<close>

theorem try_stop_refines:
  assumes "try_stop sp c n = Some (ok, c', fw, m)"
  shows "(c', stop_outcome_of ok fw) = abs_try_stop c \<and> n \<le> m"
proof (cases c)
  case True
  with assms show ?thesis
    by (simp add: try_stop_def cas_retry_loop_unfold compare_exchange_weak_def
                  stop_outcome_of_def abs_try_stop_def split: if_splits)
next
  case False
  from assms False obtain j0 where "\<not> sp (0 + j0)"
    using cas_retry_loop_clear_SomeD [of sp 0 False False n] by (auto simp: try_stop_def)
  then obtain j where "\<not> sp j" "\<forall>i<j. sp i"
    using first_non_spurious [of sp j0] by auto
  then have "try_stop sp False n = Some (True, True, False, n + int j)"
    using cas_retry_loop_clear [of sp 0 j n] by (simp add: try_stop_def)
  with assms False show ?thesis
    by (simp add: stop_outcome_of_def abs_try_stop_def)
qed

theorem try_stop_refines_witness:
  "try_stop (\<lambda>i. i < 2) False 0 = Some (True, True, False, 2) \<and>
   (True, stop_outcome_of True False) = abs_try_stop False \<and> (0::int) \<le> 2"
proof -
  have h: "try_stop (\<lambda>i. i < 2) False 0 = Some (True, True, False, 2)"
    using cas_retry_loop_clear [of "\<lambda>i. i < 2" 0 2 0] by (simp add: try_stop_def)
  then have "(True, stop_outcome_of True False) = abs_try_stop False \<and> (0::int) \<le> 2"
    by (rule try_stop_refines)
  with h show ?thesis by blast
qed

subsection \<open>Concurrent callers: the one-shot flag\<close>

lemma stop_step_length [simp]: "length (callers (stop_step i sp s)) = length (callers s)"
  by (simp add: stop_step_def split: prod.splits)

lemma stop_run_append: "stop_run (xs @ ys) s = stop_run ys (stop_run xs s)"
  by (induction xs arbitrary: s) auto

lemma stop_reach_run: "stop_reach n s \<Longrightarrow> stop_reach n (stop_run evs s)"
proof (induction evs arbitrary: s)
  case Nil
  then show ?case by simp
next
  case (Cons e evs)
  then show ?case by (cases e) (auto intro: stop_reach.step)
qed

lemma caller_step_flag_monotone:
  "caller_step sp c p = (c', p') \<Longrightarrow> c \<Longrightarrow> c'"
  by (cases p) (auto simp: compare_exchange_weak_def split: if_splits)

lemma stop_step_flag_monotone: "m_cond s \<Longrightarrow> m_cond (stop_step i sp s)"
  by (auto simp: stop_step_def dest: caller_step_flag_monotone split: prod.splits)

text \<open>C6: The flag is one-shot: once set, no interleaving of callers clears it
  again.\<close>

theorem stop_flag_never_reverts: "m_cond s \<Longrightarrow> m_cond (stop_run evs s)"
proof (induction evs arbitrary: s)
  case Nil
  then show ?case by simp
next
  case (Cons e evs)
  then show ?case by (cases e) (simp add: stop_step_flag_monotone)
qed

theorem stop_flag_never_reverts_witness:
  "m_cond (stop_run [(0, True), (1, False), (1, False)]
             \<lparr>m_cond = True, callers = [TS_Load, TS_Cas False 0]\<rparr>)"
  by (rule stop_flag_never_reverts) simp

text \<open>The invariant of the concurrent callers: the number of winners is one if
  the flag is set and zero otherwise; a caller past the loop, or in it with
  \<^verbatim>\<open>finish_work\<close> true, has seen the flag set.\<close>

definition stop_inv :: "nat \<Rightarrow> stop_sys \<Rightarrow> bool" where
  "stop_inv n s \<longleftrightarrow>
     length (callers s) = n \<and>
     winners s = (if m_cond s then 1 else 0) \<and>
     (\<forall>p \<in> set (callers s). is_done p \<longrightarrow> m_cond s) \<and>
     (\<forall>k. TS_Cas True k \<in> set (callers s) \<longrightarrow> m_cond s)"

lemma stop_inv_init: "stop_inv n (stop_init n)"
  by (simp add: stop_inv_def stop_init_def winners_def)

lemma caller_step_cases:
  "caller_step sp c p = (c', p') \<Longrightarrow>
     (c' = c \<and> \<not> is_won p' \<and> \<not> is_done p' \<and> p = TS_Load \<and> p' = TS_Cas c 0)
   \<or> (c' = c \<and> p' = p \<and> is_done p)
   \<or> (\<exists>fw k. p = TS_Cas fw k \<and>
        ((\<not> c \<and> \<not> fw \<and> sp \<and> c' = c \<and> p' = TS_Cas False (k + 1))
       \<or> (\<not> c \<and> \<not> fw \<and> \<not> sp \<and> c' \<and> p' = TS_Done Won True k)
       \<or> (c \<and> c' \<and> is_done p' \<and> \<not> is_won p')
       \<or> (\<not> c \<and> fw \<and> c' = c \<and> p' = TS_Cas False (k + 1))))"
  by (cases p) (auto simp: compare_exchange_weak_def stop_outcome_of_def split: if_splits)

lemma stop_step_inv:
  assumes inv: "stop_inv n s"
  shows "stop_inv n (stop_step i sp s)"
proof (cases "i < length (callers s)")
  case False
  with inv show ?thesis by (simp add: stop_step_def)
next
  case True
  obtain c' p' where st: "caller_step sp (m_cond s) (callers s ! i) = (c', p')"
    by fastforce
  have p_in: "callers s ! i \<in> set (callers s)" using True by simp
  have cnt: "length (filter is_won ((callers s)[i := p'])) + (if is_won (callers s ! i) then 1 else 0) =
             winners s + (if is_won p' then 1 else 0)"
    using length_filter_update [OF True] by (simp add: winners_def)
  have set_upd: "set ((callers s)[i := p']) \<subseteq> insert p' (set (callers s))"
    by (rule set_update_subset_insert)
  have res: "stop_step i sp s = s\<lparr>m_cond := c', callers := (callers s)[i := p']\<rparr>"
    using True st by (simp add: stop_step_def)
  from caller_step_cases [OF st] inv p_in show ?thesis
    unfolding res stop_inv_def winners_def
    using cnt set_upd by (auto simp: winners_def)
qed

lemma stop_reach_inv: "stop_reach n s \<Longrightarrow> stop_inv n s"
proof (induction rule: stop_reach.induct)
  case init
  show ?case by (rule stop_inv_init)
next
  case (step s i sp)
  from step.IH show ?case by (rule stop_step_inv)
qed

lemma stop_run_inv: "stop_inv n s \<Longrightarrow> stop_inv n (stop_run evs s)"
proof (induction evs arbitrary: s)
  case Nil
  then show ?case by simp
next
  case (Cons e evs)
  then show ?case by (cases e) (simp add: stop_step_inv)
qed

text \<open>C3: At most one caller ever wins: in every state reachable by any
  interleaving of any number of callers and any spurious failures, the number of
  callers that performed \<open>false \<rightarrow> true\<close> is one if the flag is set and zero
  otherwise.\<close>

theorem stop_at_most_one_winner:
  "stop_reach n s \<Longrightarrow> winners s = (if m_cond s then 1 else 0)"
  by (simp add: stop_reach_inv [THEN stop_inv_def [THEN iffD1]])

theorem stop_at_most_one_winner_witness:
  "winners (stop_run [(0, False), (1, False), (0, False), (1, False)] (stop_init 2)) = 1"
proof -
  have "stop_reach 2 (stop_run [(0, False), (1, False), (0, False), (1, False)] (stop_init 2))"
    by (rule stop_reach_run [OF stop_reach.init])
  from stop_at_most_one_winner [OF this] show ?thesis
    by (simp add: stop_init_def stop_step_def compare_exchange_weak_def
                  stop_outcome_of_def numeral_2_eq_2)
qed

lemma is_done_cases: "is_done p \<Longrightarrow> is_won p \<or> is_already_stopped p"
  by (cases p rule: is_done.cases) (auto elim: is_won.elims is_already_stopped.elims
      intro: stop_outcome.exhaust)

lemma is_won_already_exclusive: "\<not> (is_won p \<and> is_already_stopped p)"
  by (cases p rule: is_won.cases) auto

text \<open>C5: When \<open>n \<ge> 1\<close> callers have all finished the stop sequence, exactly one
  of them won and the other \<open>n - 1\<close> found the flag already set.\<close>

theorem stop_all_done_exactly_one:
  assumes "stop_reach n s" and "0 < n" and "list_all is_done (callers s)"
  shows "winners s = 1 \<and> length (filter is_already_stopped (callers s)) = n - 1"
proof -
  have inv: "stop_inv n s" using assms(1) by (rule stop_reach_inv)
  then have len: "length (callers s) = n" by (simp add: stop_inv_def)
  with assms(2) have "callers s ! 0 \<in> set (callers s)" by simp
  moreover have "is_done (callers s ! 0)"
    using assms(2,3) len by (simp add: list_all_length)
  ultimately have set: "m_cond s" using inv by (auto simp: stop_inv_def)
  with inv have w: "winners s = 1" by (simp add: stop_inv_def)
  have "list_all (\<lambda>p. is_won p \<or> is_already_stopped p) (callers s)"
    using assms(3) is_done_cases by (auto simp: list_all_iff)
  moreover have "list_all (\<lambda>p. \<not> (is_won p \<and> is_already_stopped p)) (callers s)"
    by (simp add: list_all_iff is_won_already_exclusive)
  ultimately have "winners s + length (filter is_already_stopped (callers s)) = n"
    using length_filter_disjoint_cover len by (fastforce simp: winners_def)
  with w show ?thesis by simp
qed

theorem stop_all_done_exactly_one_witness:
  "winners (stop_run [(0, False), (1, False), (2, False), (1, False), (0, False), (2, True),
                      (2, False)] (stop_init 3)) = 1 \<and>
   length (filter is_already_stopped (callers (stop_run [(0, False), (1, False), (2, False),
     (1, False), (0, False), (2, True), (2, False)] (stop_init 3)))) = 2"
proof -
  let ?evs = "[(0::nat, False), (1, False), (2, False), (1, False), (0, False), (2, True),
               (2, False)]"
  have r: "stop_reach 3 (stop_run ?evs (stop_init 3))"
    by (rule stop_reach_run [OF stop_reach.init])
  have d: "list_all is_done (callers (stop_run ?evs (stop_init 3)))"
    by (simp add: stop_init_def stop_step_def compare_exchange_weak_def
                  stop_outcome_of_def numeral_3_eq_3)
  from stop_all_done_exactly_one [OF r _ d] show ?thesis by simp
qed

subsection \<open>Concurrent callers: progress\<close>

text \<open>A schedule that lets every caller run two steps without spurious failure.\<close>

definition finish_sched :: "nat \<Rightarrow> (nat \<times> bool) list" where
  "finish_sched n = concat (map (\<lambda>i. [(i, False), (i, False)]) [0..<n])"

lemma stop_step_done_stable:
  "j < length (callers s) \<Longrightarrow> is_done (callers s ! j) \<Longrightarrow>
   is_done (callers (stop_step i sp s) ! j)"
  by (cases "callers s ! j" rule: is_done.cases)
     (auto simp: stop_step_def nth_list_update split: prod.splits)

lemma stop_step_finishes_caller:
  assumes inv: "stop_inv n s" and i: "i < length (callers s)"
  shows "is_done (callers (stop_step i False (stop_step i False s)) ! i)"
proof (cases "callers s ! i")
  case TS_Load
  then show ?thesis using i
    by (simp add: stop_step_def compare_exchange_weak_def)
next
  case (TS_Cas fw k)
  have "fw \<longrightarrow> m_cond s"
    using inv i TS_Cas by (auto simp: stop_inv_def dest: nth_mem)
  then have "is_done (callers (stop_step i False s) ! i)"
    using i TS_Cas by (cases fw; cases "m_cond s")
      (simp_all add: stop_step_def compare_exchange_weak_def)
  then show ?thesis using i by (simp add: stop_step_done_stable)
next
  case (TS_Done out ok k)
  then show ?thesis using i by (simp add: stop_step_done_stable)
qed

lemma finish_sched_done:
  "stop_inv n s \<Longrightarrow> k \<le> n \<Longrightarrow> \<forall>j<k. is_done (callers (stop_run (finish_sched k) s) ! j)"
proof (induction k)
  case 0
  then show ?case by simp
next
  case (Suc k)
  let ?t = "stop_run (finish_sched k) s"
  have inv: "stop_inv n ?t" using Suc.prems(1) by (rule stop_run_inv)
  then have len: "length (callers ?t) = n" by (simp add: stop_inv_def)
  have run: "stop_run (finish_sched (Suc k)) s = stop_step k False (stop_step k False ?t)"
    by (simp add: finish_sched_def stop_run_append)
  have old: "\<forall>j<k. is_done (callers ?t ! j)" using Suc by simp
  show ?case
  proof (intro allI impI)
    fix j assume "j < Suc k"
    then consider "j < k" | "j = k" by linarith
    then show "is_done (callers (stop_run (finish_sched (Suc k)) s) ! j)"
    proof cases
      case 1
      with old Suc.prems(2) len show ?thesis
        unfolding run by (simp add: stop_step_done_stable)
    next
      case 2
      with Suc.prems(2) len inv show ?thesis
        unfolding run by (simp add: stop_step_finishes_caller)
    qed
  qed
qed

text \<open>C16: Progress of the stop sequence: from any reachable state, letting every
  caller run two steps without a spurious failure brings all of them past the
  retry loop.\<close>

theorem stop_progress:
  "stop_reach n s \<Longrightarrow> list_all is_done (callers (stop_run (finish_sched n) s))"
proof -
  assume r: "stop_reach n s"
  then have inv: "stop_inv n s" by (rule stop_reach_inv)
  then have "length (callers (stop_run (finish_sched n) s)) = n"
    using stop_run_inv by (simp add: stop_inv_def)
  moreover have "\<forall>j<n. is_done (callers (stop_run (finish_sched n) s) ! j)"
    using finish_sched_done [OF inv] by simp
  ultimately show ?thesis by (simp add: list_all_length)
qed

theorem stop_progress_witness:
  "list_all is_done (callers (stop_run (finish_sched 2) (stop_run [(1, False), (0, True)]
     (stop_init 2))))"
  using stop_progress [OF stop_reach_run [OF stop_reach.init]] .

end
