(* ===== verification/Driver.thy ===== *)
theory Driver
  imports Worker StopFlag
begin

text \<open>
  The driver \<^verbatim>\<open>main\<close> (lines 70--140 of \<^verbatim>\<open>src/main.cpp\<close>, 70--138 of
  \<^verbatim>\<open>src/main_seqcst_padding.cpp\<close>) together with the three worker threads it
  starts, as one interleaved system.  A state holds the stop flag
  \<^verbatim>\<open>Foo::m_cond\<close>, the three objects \<^verbatim>\<open>a\<close>, \<^verbatim>\<open>b\<close>, \<^verbatim>\<open>c\<close>
  (indices 0, 1, 2), the program point of the main thread and its local variables.
  A step is one atomic action of the main thread or of one worker thread; the
  scheduler picks which, and for the main thread's CAS whether it fails spuriously.

  The two source files are two variants of the same program: they differ in the
  member order of \<^verbatim>\<open>Foo\<close> (hence in the order of the constructor's actions)
  and in the threshold of the polling loop (\<^verbatim>\<open>cnt >= 10\<close> against
  \<^verbatim>\<open>cnt > 1\<close>).  Console output and the two sleeps are not modelled beyond their
  place in the sequence: a sleep is a step that lets the other threads run.
\<close>

datatype variant = AcqRelMain | SeqCstPadding

fun variant_layout :: "variant \<Rightarrow> layout" where
  "variant_layout AcqRelMain = ThreadFirst"
| "variant_layout SeqCstPadding = CounterFirst"

text \<open>Line 102: the test that ends the polling of \<^verbatim>\<open>a\<close>'s count.\<close>

fun signal_reached :: "variant \<Rightarrow> int32 \<Rightarrow> bool" where
  "signal_reached AcqRelMain cnt = (10 \<le> sint cnt)"
| "signal_reached SeqCstPadding cnt = (1 < sint cnt)"

text \<open>Lines 78--80: the seeds of \<^verbatim>\<open>a\<close>, \<^verbatim>\<open>b\<close>, \<^verbatim>\<open>c\<close>.\<close>

definition seeds :: "int32 list" where
  "seeds = [1, 2, 3]"

text \<open>Program points of the main thread, in the order of the source.\<close>

datatype main_pc =
    M_Ctor nat nat   \<comment> \<open>lines 78--80: object \<open>k\<close>, constructor action \<open>j\<close>\<close>
  | M_Sleep1         \<comment> \<open>line 92\<close>
  | M_Ckp1 nat       \<comment> \<open>line 95: \<^verbatim>\<open>tpc_count\<close> reads count \<open>k\<close>\<close>
  | M_Poll           \<comment> \<open>line 99: \<^verbatim>\<open>while(!m_cond.load())\<close>\<close>
  | M_Count          \<comment> \<open>lines 101--102: \<^verbatim>\<open>cnt = a.count()\<close> and the test\<close>
  | M_LoadFw         \<comment> \<open>line 106: \<^verbatim>\<open>finish_work = m_cond.load()\<close>\<close>
  | M_Cas            \<comment> \<open>lines 107--115: the CAS retry loop\<close>
  | M_Ckp2 nat       \<comment> \<open>line 123\<close>
  | M_DoWork         \<comment> \<open>line 127: \<^verbatim>\<open>a.do_work()\<close>\<close>
  | M_Sleep2         \<comment> \<open>line 129\<close>
  | M_Ckp3 nat       \<comment> \<open>line 132\<close>
  | M_Report         \<comment> \<open>lines 134--136: the three printed comparisons\<close>
  | M_Dtor nat       \<comment> \<open>line 138: \<^verbatim>\<open>return\<close> destroys \<open>c\<close>, \<open>b\<close>, \<open>a\<close>\<close>
  | M_Exit

record sys =
  flag :: bool
  objs :: "foo list"
  pc :: main_pc
  ckp1 :: "int32 list"
  ckp2 :: "int32 list"
  ckp3 :: "int32 list"
  cnt :: int32
  finish_work :: bool
  spurious :: int
  report :: "bool list"

definition sys_init :: sys where
  "sys_init = \<lparr>flag = False, objs = [foo_raw, foo_raw, foo_raw], pc = M_Ctor 0 0,
     ckp1 = [0, 0, 0], ckp2 = [0, 0, 0], ckp3 = [0, 0, 0], cnt = 0,
     finish_work = False, spurious = 0, report = []\<rparr>"

text \<open>One step of the main thread.  \<open>sp\<close> is the spurious-failure choice of the
  CAS at \<open>M_Cas\<close> and is ignored elsewhere.  At \<open>M_Dtor\<close> the step blocks
  (leaves the state unchanged) while \<^verbatim>\<open>join\<close> waits.\<close>

fun main_step :: "variant \<Rightarrow> bool \<Rightarrow> sys \<Rightarrow> sys" where
  "main_step v sp s =
     (case pc s of
        M_Ctor k j \<Rightarrow>
          s\<lparr>objs := (objs s)[k := foo_ctor_step (seeds ! k) (ctor_order (variant_layout v) ! j)
                                   (objs s ! k)],
            pc := (if j < 2 then M_Ctor k (Suc j) else if k < 2 then M_Ctor (Suc k) 0
                   else M_Sleep1)\<rparr>
      | M_Sleep1 \<Rightarrow> s\<lparr>pc := M_Ckp1 0\<rparr>
      | M_Ckp1 k \<Rightarrow>
          s\<lparr>ckp1 := (ckp1 s)[k := foo_count (objs s ! k)],
            pc := (if k < 2 then M_Ckp1 (Suc k) else M_Poll)\<rparr>
      | M_Poll \<Rightarrow> s\<lparr>pc := (if flag s then M_Ckp2 0 else M_Count)\<rparr>
      | M_Count \<Rightarrow>
          s\<lparr>cnt := foo_count (objs s ! 0),
            pc := (if signal_reached v (foo_count (objs s ! 0)) then M_LoadFw else M_Poll)\<rparr>
      | M_LoadFw \<Rightarrow> s\<lparr>finish_work := flag s, pc := M_Cas\<rparr>
      | M_Cas \<Rightarrow>
          (case compare_exchange_weak sp (flag s) (finish_work s) True of
             (ok, f', fw') \<Rightarrow>
               if \<not> ok \<and> \<not> fw' then
                 s\<lparr>flag := f', finish_work := fw', spurious := spurious s + 1\<rparr>
               else s\<lparr>flag := f', finish_work := fw', pc := M_Poll\<rparr>)
      | M_Ckp2 k \<Rightarrow>
          s\<lparr>ckp2 := (ckp2 s)[k := foo_count (objs s ! k)],
            pc := (if k < 2 then M_Ckp2 (Suc k) else M_DoWork)\<rparr>
      | M_DoWork \<Rightarrow> s\<lparr>objs := (objs s)[0 := foo_do_work (objs s ! 0)], pc := M_Sleep2\<rparr>
      | M_Sleep2 \<Rightarrow> s\<lparr>pc := M_Ckp3 0\<rparr>
      | M_Ckp3 k \<Rightarrow>
          s\<lparr>ckp3 := (ckp3 s)[k := foo_count (objs s ! k)],
            pc := (if k < 2 then M_Ckp3 (Suc k) else M_Report)\<rparr>
      | M_Report \<Rightarrow>
          s\<lparr>report := [ckp3 s ! 0 = ckp2 s ! 0 + 1, ckp3 s ! 1 = ckp2 s ! 1,
                       ckp3 s ! 2 = ckp2 s ! 2],
            pc := M_Dtor 2\<rparr>
      | M_Dtor k \<Rightarrow>
          (case foo_dtor (objs s ! k) of
             None \<Rightarrow> s
           | Some f \<Rightarrow> s\<lparr>objs := (objs s)[k := f],
                          pc := (if k = 0 then M_Exit else M_Dtor (k - 1))\<rparr>)
      | M_Exit \<Rightarrow> s)"

text \<open>One step of the thread running \<^verbatim>\<open>do_thing\<close> on object \<open>k\<close>.\<close>

definition task_step :: "nat \<Rightarrow> sys \<Rightarrow> sys" where
  "task_step k s =
     (if k < length (objs s) then
        s\<lparr>objs := (objs s)[k := do_thing_step (flag s) (objs s ! k)]\<rparr>
      else s)"

datatype event = Main bool | Task nat

fun sys_step :: "variant \<Rightarrow> event \<Rightarrow> sys \<Rightarrow> sys" where
  "sys_step v (Main sp) s = main_step v sp s"
| "sys_step v (Task k) s = task_step k s"

fun sys_run :: "variant \<Rightarrow> event list \<Rightarrow> sys \<Rightarrow> sys" where
  "sys_run v [] s = s"
| "sys_run v (e # es) s = sys_run v es (sys_step v e s)"

inductive reach :: "variant \<Rightarrow> sys \<Rightarrow> bool" for v :: variant where
  init: "reach v sys_init"
| step: "reach v s \<Longrightarrow> reach v (sys_step v e s)"

subsection \<open>Shape of the reachable states\<close>

text \<open>The position of the main thread along the program; the polling loop moves
  between ranks 13 and 16, every other step moves forward.\<close>

fun pc_rank :: "main_pc \<Rightarrow> nat" where
  "pc_rank (M_Ctor k j) = 3 * k + j"
| "pc_rank M_Sleep1 = 9"
| "pc_rank (M_Ckp1 k) = 10 + k"
| "pc_rank M_Poll = 13"
| "pc_rank M_Count = 14"
| "pc_rank M_LoadFw = 15"
| "pc_rank M_Cas = 16"
| "pc_rank (M_Ckp2 k) = 17 + k"
| "pc_rank M_DoWork = 20"
| "pc_rank M_Sleep2 = 21"
| "pc_rank (M_Ckp3 k) = 22 + k"
| "pc_rank M_Report = 25"
| "pc_rank (M_Dtor k) = 28 - k"
| "pc_rank M_Exit = 29"

fun pc_ok :: "main_pc \<Rightarrow> bool" where
  "pc_ok (M_Ctor k j) = (k < 3 \<and> j < 3)"
| "pc_ok (M_Ckp1 k) = (k < 3)"
| "pc_ok (M_Ckp2 k) = (k < 3)"
| "pc_ok (M_Ckp3 k) = (k < 3)"
| "pc_ok (M_Dtor k) = (k < 3)"
| "pc_ok _ = True"

definition inv_shape :: "sys \<Rightarrow> bool" where
  "inv_shape s \<longleftrightarrow> length (objs s) = 3 \<and> length (ckp2 s) = 3 \<and> length (ckp3 s) = 3 \<and>
     length (ckp1 s) = 3 \<and> pc_ok (pc s)"

lemma inv_shape_init: "inv_shape sys_init"
  by (simp add: inv_shape_def sys_init_def)

lemma task_step_objs_length [simp]: "length (objs (task_step k s)) = length (objs s)"
  by (simp add: task_step_def)

lemma task_step_main_frame [simp]:
  "flag (task_step k s) = flag s" "pc (task_step k s) = pc s"
  "ckp1 (task_step k s) = ckp1 s" "ckp2 (task_step k s) = ckp2 s"
  "ckp3 (task_step k s) = ckp3 s" "finish_work (task_step k s) = finish_work s"
  by (simp_all add: task_step_def)

lemma main_step_inv_shape: "inv_shape s \<Longrightarrow> inv_shape (main_step v sp s)"
  by (cases "pc s")
     (auto simp: inv_shape_def compare_exchange_weak_def split: option.splits prod.splits)

lemma task_step_inv_shape: "inv_shape s \<Longrightarrow> inv_shape (task_step k s)"
  by (simp add: inv_shape_def)

subsection \<open>The stop flag and the main thread\<close>


definition inv_flag :: "sys \<Rightarrow> bool" where
  "inv_flag s \<longleftrightarrow>
     (flag s \<longrightarrow> pc s = M_Poll \<or> 17 \<le> pc_rank (pc s)) \<and>
     (17 \<le> pc_rank (pc s) \<longrightarrow> flag s) \<and>
     (pc s = M_Cas \<longrightarrow> \<not> finish_work s)"

lemma inv_flag_init: "inv_flag sys_init"
  by (simp add: inv_flag_def sys_init_def)

lemma main_step_inv_flag:
  "inv_shape s \<Longrightarrow> inv_flag s \<Longrightarrow> inv_flag (main_step v sp s)"
  by (cases "pc s")
     (auto simp: inv_flag_def inv_shape_def compare_exchange_weak_def
           split: option.splits prod.splits if_splits)

lemma task_step_inv_flag: "inv_flag s \<Longrightarrow> inv_flag (task_step k s)"
  by (simp add: inv_flag_def)


definition ckp_base :: "sys \<Rightarrow> nat \<Rightarrow> int32" where
  "ckp_base s k = ckp2 s ! k + (if k = 0 \<and> 20 < pc_rank (pc s) then 1 else 0)"

definition obj_ok :: "foo \<Rightarrow> int32 \<Rightarrow> bool" where
  "obj_ok f base \<longleftrightarrow>
     (m_thread f = Work \<longrightarrow> m_v f = base) \<and> (m_v f = base \<or> m_v f = base + 1)"

lemma obj_ok_step: "obj_ok f base \<Longrightarrow> obj_ok (do_thing_step True f) base"
  by (cases "m_thread f") (auto simp: obj_ok_def)

definition inv_ckp :: "sys \<Rightarrow> bool" where
  "inv_ckp s \<longleftrightarrow> (\<forall>k<3.
     (17 + k < pc_rank (pc s) \<longrightarrow> obj_ok (objs s ! k) (ckp_base s k)) \<and>
     (22 + k < pc_rank (pc s) \<longrightarrow>
        ckp3 s ! k = ckp_base s k \<or> ckp3 s ! k = ckp_base s k + 1))"

lemma inv_ckp_init: "inv_ckp sys_init"
  by (simp add: inv_ckp_def sys_init_def)

lemma task_step_nth:
  "objs (task_step k s) ! j =
     (if j = k \<and> k < length (objs s) then do_thing_step (flag s) (objs s ! k) else objs s ! j)"
  by (simp add: task_step_def)

lemma task_step_ckp_base [simp]: "ckp_base (task_step k s) j = ckp_base s j"
  by (simp add: ckp_base_def)

lemma task_step_inv_ckp:
  assumes flag: "inv_flag s" and ckp: "inv_ckp s"
  shows "inv_ckp (task_step k s)"
  unfolding inv_ckp_def
proof (intro allI impI conjI)
  fix j :: nat assume j: "j < 3"
  { assume r: "17 + j < pc_rank (pc (task_step k s))"
    then have "flag s" using flag by (simp add: inv_flag_def)
    moreover have "obj_ok (objs s ! j) (ckp_base s j)" using ckp j r by (simp add: inv_ckp_def)
    ultimately show "obj_ok (objs (task_step k s) ! j) (ckp_base (task_step k s) j)"
      by (auto simp: task_step_nth intro: obj_ok_step) }
  { assume r: "22 + j < pc_rank (pc (task_step k s))"
    with ckp j show "ckp3 (task_step k s) ! j = ckp_base (task_step k s) j \<or>
                     ckp3 (task_step k s) ! j = ckp_base (task_step k s) j + 1"
      by (simp add: inv_ckp_def) }
qed


lemma inv_ckp_early: "pc_rank (pc t) \<le> 17 \<Longrightarrow> inv_ckp t"
  by (simp add: inv_ckp_def)

lemma obj_ok_self: "obj_ok f (m_v f)"
  by (simp add: obj_ok_def)

lemma obj_ok_do_work: "obj_ok f b \<Longrightarrow> obj_ok (foo_do_work f) (b + 1)"
  unfolding obj_ok_def by (auto simp: add.commute)

lemma obj_ok_cong: "m_v f' = m_v f \<Longrightarrow> m_thread f' = m_thread f \<Longrightarrow> obj_ok f' b = obj_ok f b"
  by (simp add: obj_ok_def)

lemma obj_ok_bounds: "obj_ok f b \<Longrightarrow> m_v f = b \<or> m_v f = b + 1"
  unfolding obj_ok_def by blast

lemma main_step_ckp2_inv_ckp:
  assumes shape: "inv_shape s" and ck: "inv_ckp s" and pc: "pc s = M_Ckp2 k"
  shows "inv_ckp (main_step v sp s)"
proof -
  define t where "t = s\<lparr>ckp2 := (ckp2 s)[k := m_v (objs s ! k)],
                         pc := (if k < 2 then M_Ckp2 (Suc k) else M_DoWork)\<rparr>"
  have "main_step v sp s = t" using pc by (simp add: t_def foo_count_def)
  moreover have "inv_ckp t"
  unfolding inv_ckp_def
proof (intro allI impI conjI)
  let ?t = t
  have k: "k < 3" using shape pc by (simp add: inv_shape_def)
  have rt: "pc_rank (pc ?t) = 18 + k" using k by (simp add: t_def)
  have objs: "objs ?t = objs s" and c2: "ckp2 ?t = (ckp2 s)[k := m_v (objs s ! k)]"
    by (simp_all add: t_def)
  fix j :: nat assume j: "j < 3"
  { assume "17 + j < pc_rank (pc ?t)"
    then consider "j < k" | "j = k" using rt by linarith
    then show "obj_ok (objs ?t ! j) (ckp_base ?t j)"
    proof cases
      case 1
      then have "17 + j < pc_rank (pc s)" and "ckp_base ?t j = ckp_base s j"
        using pc rt k by (simp_all add: ckp_base_def c2)
      with ck j show ?thesis by (simp add: inv_ckp_def objs)
    next
      case 2
      then have "ckp_base ?t j = m_v (objs s ! k)"
        using rt shape k by (simp add: ckp_base_def c2 inv_shape_def)
      with 2 show ?thesis by (simp add: objs obj_ok_self)
    qed }
  { assume "22 + j < pc_rank (pc ?t)"
    with rt k show "ckp3 ?t ! j = ckp_base ?t j \<or> ckp3 ?t ! j = ckp_base ?t j + 1"
      by simp }
qed
  ultimately show ?thesis by simp
qed

lemma main_step_ckp3_inv_ckp:
  assumes shape: "inv_shape s" and ck: "inv_ckp s" and pc: "pc s = M_Ckp3 k"
  shows "inv_ckp (main_step v sp s)"
proof -
  define t where "t = s\<lparr>ckp3 := (ckp3 s)[k := m_v (objs s ! k)],
                         pc := (if k < 2 then M_Ckp3 (Suc k) else M_Report)\<rparr>"
  have "main_step v sp s = t" using pc by (simp add: t_def foo_count_def)
  moreover have "inv_ckp t"
  unfolding inv_ckp_def
proof (intro allI impI conjI)
  let ?t = t
  have k: "k < 3" using shape pc by (simp add: inv_shape_def)
  have rt: "pc_rank (pc ?t) = 23 + k" using k by (simp add: t_def)
  have objs: "objs ?t = objs s" and c3: "ckp3 ?t = (ckp3 s)[k := m_v (objs s ! k)]"
    and base: "ckp_base ?t i = ckp_base s i" for i
    using pc k by (simp_all add: t_def ckp_base_def)
  fix j :: nat assume j: "j < 3"
  have act: "17 + j < pc_rank (pc s)" using pc j by simp
  { assume "17 + j < pc_rank (pc ?t)"
    with ck j act show "obj_ok (objs ?t ! j) (ckp_base ?t j)"
      by (simp add: inv_ckp_def objs base) }
  { assume "22 + j < pc_rank (pc ?t)"
    then consider "j < k" | "j = k" using rt by linarith
    then show "ckp3 ?t ! j = ckp_base ?t j \<or> ckp3 ?t ! j = ckp_base ?t j + 1"
    proof cases
      case 1
      then have "22 + j < pc_rank (pc s)" using pc by simp
      with 1 ck j show ?thesis by (simp add: inv_ckp_def c3 base)
    next
      case 2
      with ck j act have "obj_ok (objs s ! k) (ckp_base s k)" by (simp add: inv_ckp_def)
      with 2 shape k show ?thesis
        by (simp add: c3 base inv_shape_def obj_ok_bounds)
    qed }
qed
  ultimately show ?thesis by simp
qed

lemma main_step_dowork_inv_ckp:
  assumes shape: "inv_shape s" and ck: "inv_ckp s" and pc: "pc s = M_DoWork"
  shows "inv_ckp (main_step v sp s)"
proof -
  define t where "t = s\<lparr>objs := (objs s)[0 := foo_do_work (objs s ! 0)], pc := M_Sleep2\<rparr>"
  have "main_step v sp s = t" using pc by (simp add: t_def)
  moreover have "inv_ckp t"
  unfolding inv_ckp_def
proof (intro allI impI conjI)
  let ?t = t
  have rt: "pc_rank (pc ?t) = 21" by (simp add: t_def)
  have objs: "objs ?t = (objs s)[0 := foo_do_work (objs s ! 0)]"
    and c2: "ckp2 ?t = ckp2 s" by (simp_all add: t_def)
  fix j :: nat assume j: "j < 3"
  have act: "17 + j < pc_rank (pc s)" and old: "obj_ok (objs s ! j) (ckp_base s j)"
    using pc j ck by (auto simp: inv_ckp_def)
  { assume "17 + j < pc_rank (pc ?t)"
    show "obj_ok (objs ?t ! j) (ckp_base ?t j)"
    proof (cases "j = 0")
      case True
      with old shape show ?thesis
        by (simp add: objs ckp_base_def rt pc c2 inv_shape_def obj_ok_do_work)
    next
      case False
      with old show ?thesis by (simp add: objs ckp_base_def rt pc c2)
    qed }
  { assume "22 + j < pc_rank (pc ?t)"
    with rt show "ckp3 ?t ! j = ckp_base ?t j \<or> ckp3 ?t ! j = ckp_base ?t j + 1" by simp }
qed
  ultimately show ?thesis by simp
qed

lemma main_step_dtor_inv_ckp:
  assumes shape: "inv_shape s" and ck: "inv_ckp s" and pc: "pc s = M_Dtor k"
  shows "inv_ckp (main_step v sp s)"
proof (cases "foo_dtor (objs s ! k)")
  case None
  with pc ck show ?thesis by simp
next
  case (Some f)
  define t where "t = s\<lparr>objs := (objs s)[k := f], pc := (if k = 0 then M_Exit else M_Dtor (k - 1))\<rparr>"
  have "main_step v sp s = t" using pc Some by (simp add: t_def)
  moreover have "inv_ckp t"
    unfolding inv_ckp_def
  proof (intro allI impI conjI)
    have k: "k < 3" using shape pc by (simp add: inv_shape_def)
    have rs: "25 < pc_rank (pc s)" and rt: "25 < pc_rank (pc t)" using pc k by (auto simp: t_def)
    have f: "obj_ok f b = obj_ok (objs s ! k) b" for b
      using foo_dtor_Some [OF Some] by (intro obj_ok_cong) simp_all
    have base: "ckp_base t i = ckp_base s i" for i using rs rt by (simp add: ckp_base_def t_def)
    have ot: "objs t = (objs s)[k := f]" and c3: "ckp3 t = ckp3 s" by (simp_all add: t_def)
    fix j :: nat assume j: "j < 3"
    have "obj_ok (objs s ! j) (ckp_base s j)" using ck j rs by (simp add: inv_ckp_def)
    then show "obj_ok (objs t ! j) (ckp_base t j)"
      using shape k by (cases "j = k") (simp_all add: ot base f inv_shape_def)
    have "ckp3 s ! j = ckp_base s j \<or> ckp3 s ! j = ckp_base s j + 1"
      using ck j rs by (simp add: inv_ckp_def)
    then show "ckp3 t ! j = ckp_base t j \<or> ckp3 t ! j = ckp_base t j + 1"
      by (simp add: c3 base)
  qed
  ultimately show ?thesis by simp
qed

lemma main_step_inv_ckp:
  assumes shape: "inv_shape s" and ck: "inv_ckp s"
  shows "inv_ckp (main_step v sp s)"
proof (cases "pc s")
  case (M_Ctor k j)
  with shape show ?thesis by (intro inv_ckp_early) (auto simp: inv_shape_def)
next
  case M_Cas
  then show ?thesis
    by (intro inv_ckp_early) (simp add: compare_exchange_weak_def split: prod.splits)
next
  case (M_Ckp2 k)
  with shape ck show ?thesis by (rule main_step_ckp2_inv_ckp)
next
  case M_DoWork
  with shape ck show ?thesis by (rule main_step_dowork_inv_ckp)
next
  case (M_Ckp3 k)
  with shape ck show ?thesis by (rule main_step_ckp3_inv_ckp)
next
  case (M_Dtor k)
  with shape ck show ?thesis by (rule main_step_dtor_inv_ckp)
next
  case M_Sleep2
  with ck show ?thesis unfolding inv_ckp_def all_less_three by (simp add: ckp_base_def)
next
  case M_Report
  with ck show ?thesis unfolding inv_ckp_def all_less_three by (simp add: ckp_base_def)
next
  case M_Exit
  with ck show ?thesis by simp
qed (auto intro: inv_ckp_early)

subsection \<open>The invariant of the whole program\<close>

definition sys_inv :: "sys \<Rightarrow> bool" where
  "sys_inv s \<longleftrightarrow> inv_shape s \<and> inv_flag s \<and> inv_ckp s"

lemma sys_inv_init: "sys_inv sys_init"
  by (simp add: sys_inv_def inv_shape_init inv_flag_init inv_ckp_init)

lemma sys_step_inv: "sys_inv s \<Longrightarrow> sys_inv (sys_step v e s)"
  by (cases e)
     (simp_all add: sys_inv_def main_step_inv_shape main_step_inv_flag main_step_inv_ckp
                    task_step_inv_shape task_step_inv_flag task_step_inv_ckp
               del: main_step.simps)

lemma reach_sys_inv: "reach v s \<Longrightarrow> sys_inv s"
proof (induction rule: reach.induct)
  case init
  show ?case by (rule sys_inv_init)
next
  case (step s e)
  from step.IH show ?case by (rule sys_step_inv)
qed

lemma reach_run: "reach v s \<Longrightarrow> reach v (sys_run v es s)"
proof (induction es arbitrary: s)
  case Nil
  then show ?case by simp
next
  case (Cons e es)
  then show ?case by (simp add: reach.step)
qed

lemma sys_run_append: "sys_run v (xs @ ys) s = sys_run v ys (sys_run v xs s)"
  by (induction xs arbitrary: s) auto

text \<open>What the invariant says at the report (lines 134--136): every sampled
  checkpoint lies within one increment of the stopped value.\<close>

lemma report_ckp_bounds:
  assumes "sys_inv s" and "pc s = M_Report" and "k < 3"
  shows "ckp3 s ! k = ckp_base s k \<or> ckp3 s ! k = ckp_base s k + 1"
  using assms by (auto simp: sys_inv_def inv_ckp_def)

lemma ckp_base_report:
  "pc s = M_Report \<Longrightarrow> ckp_base s k = ckp2 s ! k + (if k = 0 then 1 else 0)"
  by (simp add: ckp_base_def)

subsection \<open>Construction of the objects\<close>


fun ctor_done :: "ctor_action \<Rightarrow> foo \<Rightarrow> bool" where
  "ctor_done InitCounter f = m_v_live f"
| "ctor_done SpawnThread f = (m_thread f \<noteq> NotStarted)"
| "ctor_done StoreSeed f = True"

lemma ctor_done_self: "ctor_done a (foo_ctor_step i a f)"
  by (cases a) simp_all

lemma ctor_done_ctor_step: "ctor_done b f \<Longrightarrow> ctor_done b (foo_ctor_step i a f)"
  by (cases a; cases b) simp_all

lemma ctor_done_thing_step: "ctor_done b f \<Longrightarrow> ctor_done b (do_thing_step c f)"
  by (cases b) (auto split: task_pc.splits)

lemma ctor_done_do_work: "ctor_done b f \<Longrightarrow> ctor_done b (foo_do_work f)"
  by (cases b) simp_all

lemma ctor_done_dtor: "foo_dtor f = Some f' \<Longrightarrow> ctor_done b f \<Longrightarrow> ctor_done b f'"
  by (cases b) (auto dest: foo_dtor_Some)

lemma ctor_order_complete:
  "(\<forall>i<3. ctor_done (ctor_order l ! i) f) \<Longrightarrow> m_v_live f \<and> m_thread f \<noteq> NotStarted"
  by (cases l) (auto simp: all_less_three)

definition built :: "variant \<Rightarrow> sys \<Rightarrow> nat \<Rightarrow> bool" where
  "built v s k \<longleftrightarrow>
     (3 * k + 3 \<le> pc_rank (pc s) \<longrightarrow> m_v_live (objs s ! k) \<and> m_thread (objs s ! k) \<noteq> NotStarted) \<and>
     (\<forall>j. pc s = M_Ctor k j \<longrightarrow> (\<forall>i<j. ctor_done (ctor_order (variant_layout v) ! i) (objs s ! k)))"

definition inv_built :: "variant \<Rightarrow> sys \<Rightarrow> bool" where
  "inv_built v s \<longleftrightarrow> (\<forall>k<3. built v s k)"

lemma inv_built_init: "inv_built v sys_init"
  by (simp add: inv_built_def built_def sys_init_def)

lemma task_step_built:
  assumes "built v s k"
  shows "built v (task_step k' s) k"
proof -
  have "objs (task_step k' s) ! k = objs s ! k \<or>
        objs (task_step k' s) ! k = do_thing_step (flag s) (objs s ! k)"
    by (auto simp: task_step_def nth_list_update)
  then show ?thesis
  proof
    assume "objs (task_step k' s) ! k = objs s ! k"
    with assms show ?thesis by (simp add: built_def)
  next
    assume eq: "objs (task_step k' s) ! k = do_thing_step (flag s) (objs s ! k)"
    have "m_thread (objs s ! k) \<noteq> NotStarted \<Longrightarrow>
          m_thread (do_thing_step (flag s) (objs s ! k)) \<noteq> NotStarted"
      by (auto split: task_pc.splits)
    with assms eq show ?thesis by (auto simp: built_def ctor_done_thing_step)
  qed
qed

lemma task_step_inv_built: "inv_built v s \<Longrightarrow> inv_built v (task_step k s)"
  by (simp add: inv_built_def task_step_built)


fun is_ctor :: "main_pc \<Rightarrow> bool" where
  "is_ctor (M_Ctor k j) = True"
| "is_ctor _ = False"

lemma not_ctor_rank: "pc_ok p \<Longrightarrow> \<not> is_ctor p \<Longrightarrow> 9 \<le> pc_rank p"
  by (cases p) auto

lemma main_step_not_ctor: "\<not> is_ctor (pc s) \<Longrightarrow> \<not> is_ctor (pc (main_step v sp s))"
  by (cases "pc s") (auto simp: compare_exchange_weak_def split: option.splits prod.splits)

text \<open>After construction the main thread changes an object only by
  \<^verbatim>\<open>a.do_work()\<close> and by the destructor.\<close>

lemma main_step_objs_cases:
  assumes "\<not> is_ctor (pc s)" and "k < length (objs s)"
  shows "objs (main_step v sp s) ! k = objs s ! k \<or>
         objs (main_step v sp s) ! k = foo_do_work (objs s ! k) \<or>
         foo_dtor (objs s ! k) = Some (objs (main_step v sp s) ! k)"
  using assms
  by (cases "pc s")
     (auto simp: nth_update_at compare_exchange_weak_def split: option.splits prod.splits)

lemma built_all:
  "\<forall>k<3. m_v_live (objs t ! k) \<and> m_thread (objs t ! k) \<noteq> NotStarted \<Longrightarrow>
   \<not> is_ctor (pc t) \<Longrightarrow> inv_built v t"
  by (cases "pc t") (auto simp: inv_built_def built_def)

lemma inv_built_all:
  "inv_shape s \<Longrightarrow> inv_built v s \<Longrightarrow> \<not> is_ctor (pc s) \<Longrightarrow> k < 3 \<Longrightarrow>
   m_v_live (objs s ! k) \<and> m_thread (objs s ! k) \<noteq> NotStarted"
  using not_ctor_rank [of "pc s"] by (auto simp: inv_built_def built_def inv_shape_def)

lemma main_step_built_ctor:
  assumes shape: "inv_shape s" and b: "inv_built v s" and pc: "pc s = M_Ctor k j"
  shows "inv_built v (main_step v sp s)"
proof -
  let ?f = "foo_ctor_step (seeds ! k) (ctor_order (variant_layout v) ! j) (objs s ! k)"
  define t where "t = s\<lparr>objs := (objs s)[k := ?f],
               pc := (if j < 2 then M_Ctor k (Suc j) else if k < 2 then M_Ctor (Suc k) 0
                      else M_Sleep1)\<rparr>"
  have ms: "main_step v sp s = t" using pc by (simp add: t_def)
  have kj: "k < 3" "j < 3" using shape pc by (auto simp: inv_shape_def)
  have len: "length (objs s) = 3" using shape by (simp add: inv_shape_def)
  have rt: "pc_rank (pc t) = 3 * k + j + 1" using kj by (auto simp: t_def)
  have pct: "pc t = M_Ctor k' j' \<Longrightarrow> (k' = k \<and> j' = Suc j) \<or> j' = 0" for k' j'
    by (auto simp: t_def split: if_splits)
  have "built v t k'" if k': "k' < 3" for k'
  proof (cases "k' = k")
    case True
    have fk: "objs t ! k = ?f" using kj len by (simp add: t_def)
    have prev: "\<forall>i<j. ctor_done (ctor_order (variant_layout v) ! i) (objs s ! k)"
      using b kj pc by (simp add: inv_built_def built_def)
    have now: "\<forall>i<Suc j. ctor_done (ctor_order (variant_layout v) ! i) ?f"
      using prev by (auto simp: less_Suc_eq ctor_done_self ctor_done_ctor_step)
    have "j = 2 \<Longrightarrow> m_v_live ?f \<and> m_thread ?f \<noteq> NotStarted"
      using now by (intro ctor_order_complete) simp
    moreover have "3 * k + 3 \<le> pc_rank (pc t) \<Longrightarrow> j = 2" using rt kj by linarith
    ultimately show ?thesis
      using now True fk pct unfolding built_def by fastforce
  next
    case False
    have old: "built v s k'" using b k' by (simp add: inv_built_def)
    have ok: "objs t ! k' = objs s ! k'" using False by (simp add: t_def)
    have "3 * k' + 3 \<le> pc_rank (pc t) \<Longrightarrow> 3 * k' + 3 \<le> pc_rank (pc s)"
      using False kj rt pc by auto
    with old False pct show ?thesis
      unfolding built_def ok by fastforce
  qed
  then show ?thesis unfolding ms inv_built_def by blast
qed

lemma main_step_inv_built:
  assumes shape: "inv_shape s" and b: "inv_built v s"
  shows "inv_built v (main_step v sp s)"
proof (cases "is_ctor (pc s)")
  case True
  then obtain k j where "pc s = M_Ctor k j" by (cases "pc s") auto
  with shape b show ?thesis by (rule main_step_built_ctor)
next
  case False
  have "m_v_live (objs (main_step v sp s) ! k) \<and>
        m_thread (objs (main_step v sp s) ! k) \<noteq> NotStarted" if "k < 3" for k
    using main_step_objs_cases [OF False, of k v sp] inv_built_all [OF shape b False that]
      shape that
    by (auto simp: inv_shape_def simp del: main_step.simps dest: foo_dtor_Some)
  with False show ?thesis
    by (intro built_all) (simp_all add: main_step_not_ctor del: main_step.simps)
qed


definition safe_obj :: "foo \<Rightarrow> bool" where
  "safe_obj f \<longleftrightarrow> \<not> uninit_access f \<and> (m_thread f \<noteq> NotStarted \<longrightarrow> m_v_live f)"

definition inv_safe :: "sys \<Rightarrow> bool" where
  "inv_safe s \<longleftrightarrow> (\<forall>k<3. safe_obj (objs s ! k))"

lemma inv_safe_init: "inv_safe sys_init"
  by (simp add: inv_safe_def safe_obj_def sys_init_def foo_raw_def all_less_three)

lemma safe_obj_thing_step: "safe_obj f \<Longrightarrow> safe_obj (do_thing_step c f)"
  by (auto simp: safe_obj_def split: task_pc.splits)

lemma task_step_inv_safe: "inv_safe s \<Longrightarrow> inv_safe (task_step k s)"
  by (auto simp: inv_safe_def task_step_def nth_list_update safe_obj_thing_step)

lemma safe_obj_ctor_step:
  assumes "safe_obj f" and "a = SpawnThread \<Longrightarrow> m_v_live f"
  shows "safe_obj (foo_ctor_step i a f)"
  using assms by (cases a) (auto simp: safe_obj_def)

lemma main_step_inv_safe:
  assumes shape: "inv_shape s" and b: "inv_built SeqCstPadding s" and sf: "inv_safe s"
  shows "inv_safe (main_step SeqCstPadding sp s)"
proof (cases "is_ctor (pc s)")
  case True
  then obtain k j where pc: "pc s = M_Ctor k j" by (cases "pc s") auto
  let ?a = "ctor_order (variant_layout SeqCstPadding) ! j"
  let ?f = "foo_ctor_step (seeds ! k) ?a (objs s ! k)"
  have ms: "objs (main_step SeqCstPadding sp s) = (objs s)[k := ?f]" using pc by simp
  have kj: "k < 3" "j < 3" using shape pc by (auto simp: inv_shape_def)
  have "?a = SpawnThread \<Longrightarrow> m_v_live (objs s ! k)"
  proof -
    assume "?a = SpawnThread"
    then have "j = 1" using kj less_three_cases_nat [of j] by auto
    with b kj pc have "ctor_done (ctor_order CounterFirst ! 0) (objs s ! k)"
      by (simp add: inv_built_def built_def)
    then show ?thesis by simp
  qed
  then have "safe_obj ?f" using sf kj by (intro safe_obj_ctor_step) (simp_all add: inv_safe_def)
  with sf shape show ?thesis
    by (auto simp: inv_safe_def ms nth_update_at inv_shape_def simp del: main_step.simps)
next
  case False
  have "safe_obj (objs (main_step SeqCstPadding sp s) ! k)" if k: "k < 3" for k
  proof -
    have old: "safe_obj (objs s ! k)" using sf k by (simp add: inv_safe_def)
    have live: "m_v_live (objs s ! k)" using inv_built_all [OF shape b False k] by simp
    show ?thesis
      using main_step_objs_cases [OF False, of k SeqCstPadding sp] old live shape k
      by (auto simp: safe_obj_def inv_shape_def foo_do_work_def simp del: main_step.simps
               dest: foo_dtor_Some)
  qed
  then show ?thesis by (simp add: inv_safe_def del: main_step.simps)
qed

subsection \<open>After the stop\<close>


lemma reach_inv_built: "reach v s \<Longrightarrow> inv_built v s"
proof (induction rule: reach.induct)
  case init
  show ?case by (rule inv_built_init)
next
  case (step s e)
  have "inv_shape s" using reach_sys_inv [OF step.hyps] by (simp add: sys_inv_def)
  with step.IH show ?case
    by (cases e) (simp_all add: main_step_inv_built task_step_inv_built del: main_step.simps)
qed

lemma reach_padding_safe: "reach SeqCstPadding s \<Longrightarrow> inv_safe s"
proof (induction rule: reach.induct)
  case init
  show ?case by (rule inv_safe_init)
next
  case (step s e)
  have "inv_shape s" using reach_sys_inv [OF step.hyps] by (simp add: sys_inv_def)
  moreover have "inv_built SeqCstPadding s" using step.hyps by (rule reach_inv_built)
  ultimately show ?case using step.IH
    by (cases e) (simp_all add: main_step_inv_safe task_step_inv_safe del: main_step.simps)
qed

text \<open>During construction: no worker thread has returned yet, and the counter of
  object \<open>k\<close> is not alive before the main thread has run its initialiser
  (the step of \<open>ctor_order\<close> that is \<open>InitCounter\<close>).\<close>

definition ctor_phase :: "variant \<Rightarrow> sys \<Rightarrow> nat \<Rightarrow> bool" where
  "ctor_phase v s k \<longleftrightarrow>
     (pc_rank (pc s) \<le> 8 \<longrightarrow> m_thread (objs s ! k) \<noteq> Finished) \<and>
     (\<forall>j<3. ctor_order (variant_layout v) ! j = InitCounter \<longrightarrow> pc_rank (pc s) \<le> 3 * k + j \<longrightarrow>
        \<not> m_v_live (objs s ! k))"

lemma ctor_order_init_unique:
  "j < 3 \<Longrightarrow> j' < 3 \<Longrightarrow> ctor_order l ! j = InitCounter \<Longrightarrow> ctor_order l ! j' = InitCounter \<Longrightarrow> j = j'"
  by (cases l) (auto simp: less_Suc_eq numeral_eq_Suc)

lemma ctor_phase_init: "k < 3 \<Longrightarrow> ctor_phase v sys_init k"
  by (auto simp: ctor_phase_def sys_init_def foo_raw_def less_Suc_eq numeral_eq_Suc)

lemma task_step_ctor_phase:
  assumes "inv_flag s" and "ctor_phase v s k"
  shows "ctor_phase v (task_step k' s) k"
proof -
  have "pc_rank (pc s) \<le> 8 \<Longrightarrow> \<not> flag s" using assms(1) by (auto simp: inv_flag_def)
  then show ?thesis using assms(2)
    by (auto simp: ctor_phase_def task_step_def nth_list_update foo_do_work_def split: task_pc.splits)
qed

lemma main_step_ctor_phase:
  assumes shape: "inv_shape s" and c: "ctor_phase v s k" and k: "k < 3"
  shows "ctor_phase v (main_step v sp s) k"
proof (cases "is_ctor (pc s)")
  case True
  then obtain k' j' where pc: "pc s = M_Ctor k' j'" by (cases "pc s") auto
  have kj: "k' < 3" "j' < 3" "length (objs s) = 3" using shape pc by (auto simp: inv_shape_def)
  let ?a = "ctor_order (variant_layout v) ! j'"
  have ms: "objs (main_step v sp s) = (objs s)[k' := foo_ctor_step (seeds ! k') ?a (objs s ! k')]"
    using pc by simp
  have rk: "pc_rank (pc (main_step v sp s)) = Suc (pc_rank (pc s))" using pc kj by auto
  show ?thesis
    unfolding ctor_phase_def
  proof (intro conjI allI impI)
    assume "pc_rank (pc (main_step v sp s)) \<le> 8"
    then have "m_thread (objs s ! k) \<noteq> Finished" using c rk by (simp add: ctor_phase_def)
    then show "m_thread (objs (main_step v sp s) ! k) \<noteq> Finished"
      using kj by (cases ?a) (auto simp: ms nth_list_update simp del: main_step.simps)
  next
    fix j assume j: "j < 3" "ctor_order (variant_layout v) ! j = InitCounter"
      and le: "pc_rank (pc (main_step v sp s)) \<le> 3 * k + j"
    have old: "\<not> m_v_live (objs s ! k)" using c rk j le by (simp add: ctor_phase_def)
    show "\<not> m_v_live (objs (main_step v sp s) ! k)"
    proof (cases "k' = k")
      case True
      then have "j' < j" using le rk pc by simp
      then have "?a \<noteq> InitCounter" using ctor_order_init_unique [OF j(1) kj(2) j(2)] by auto
      then show ?thesis using old True kj by (cases ?a) (auto simp: ms simp del: main_step.simps)
    next
      case False
      then show ?thesis using old by (simp add: ms nth_list_update del: main_step.simps)
    qed
  qed
next
  case False
  have "pc_ok (pc (main_step v sp s))" using main_step_inv_shape [OF shape] by (simp add: inv_shape_def)
  then have "9 \<le> pc_rank (pc (main_step v sp s))"
    using not_ctor_rank main_step_not_ctor [OF False] by blast
  then show ?thesis using k by (simp add: ctor_phase_def)
qed

lemma reach_ctor_phase: "reach v s \<Longrightarrow> k < 3 \<Longrightarrow> ctor_phase v s k"
proof (induction rule: reach.induct)
  case init
  show ?case by (rule ctor_phase_init [OF init])
next
  case (step s e)
  have inv: "inv_shape s" "inv_flag s" using reach_sys_inv [OF step.hyps] by (simp_all add: sys_inv_def)
  show ?case using step.IH [OF step.prems] inv step.prems
    by (cases e) (simp_all add: main_step_ctor_phase task_step_ctor_phase del: main_step.simps)
qed

lemma flag_not_ctor: "inv_shape s \<Longrightarrow> inv_flag s \<Longrightarrow> flag s \<Longrightarrow> \<not> is_ctor (pc s)"
  by (cases "pc s") (auto simp: inv_flag_def inv_shape_def)

lemma reach_flag_started:
  assumes "reach v s" and "flag s" and "k < 3"
  shows "m_thread (objs s ! k) \<noteq> NotStarted"
proof -
  have inv: "sys_inv s" using assms(1) by (rule reach_sys_inv)
  then have "\<not> is_ctor (pc s)" using assms(2) by (simp add: sys_inv_def flag_not_ctor)
  with inv reach_inv_built [OF assms(1)] assms(3) show ?thesis
    using inv_built_all by (simp add: sys_inv_def)
qed

lemma task_pair_finishes:
  assumes "reach v s" and "flag s" and "k < 3"
  shows "m_thread (objs (sys_run v [Task k, Task k] s) ! k) = Finished"
proof -
  have len: "length (objs s) = 3" using reach_sys_inv [OF assms(1)] by (simp add: sys_inv_def inv_shape_def)
  have "m_thread (objs s ! k) \<noteq> NotStarted" using reach_flag_started [OF assms] .
  with assms(2,3) len show ?thesis
    by (simp add: task_step_def split: task_pc.splits)
qed

text \<open>Steps the main thread still needs once the flag is set and every worker has
  returned.\<close>

fun stop_dist :: "main_pc \<Rightarrow> nat" where
  "stop_dist M_Poll = 13"
| "stop_dist (M_Ckp2 k) = 12 - k"
| "stop_dist M_DoWork = 9"
| "stop_dist M_Sleep2 = 8"
| "stop_dist (M_Ckp3 k) = 7 - k"
| "stop_dist M_Report = 4"
| "stop_dist (M_Dtor k) = Suc k"
| "stop_dist _ = 0"

definition drained :: "sys \<Rightarrow> bool" where
  "drained s \<longleftrightarrow> inv_shape s \<and> inv_flag s \<and> flag s \<and> (\<forall>k<3. m_thread (objs s ! k) = Finished)"

lemma main_step_drained:
  assumes d: "drained s" and ne: "pc s \<noteq> M_Exit"
  shows "drained (main_step v False s) \<and> Suc (stop_dist (pc (main_step v False s))) = stop_dist (pc s)"
proof -
  have shape: "inv_shape s" and fl: "inv_flag s" and f: "flag s"
    and fin: "\<forall>k<3. m_thread (objs s ! k) = Finished"
    using d by (simp_all add: drained_def)
  have nc: "\<not> is_ctor (pc s)" using shape fl f by (cases "pc s") (auto simp: inv_flag_def inv_shape_def)
  have pcs: "pc s = M_Poll \<or> 17 \<le> pc_rank (pc s)" using fl f by (simp add: inv_flag_def)
  have fin': "\<forall>k<3. m_thread (objs (main_step v False s) ! k) = Finished"
  proof (intro allI impI)
    fix k :: nat assume k: "k < 3"
    then have "k < length (objs s)" using shape by (simp add: inv_shape_def)
    from main_step_objs_cases [OF nc this, of v False] fin k show
      "m_thread (objs (main_step v False s) ! k) = Finished"
      by (auto simp del: main_step.simps dest: foo_dtor_Some)
  qed
  have f': "flag (main_step v False s)" using f pcs shape
    by (cases "pc s") (auto simp: inv_shape_def split: option.splits)
  have dist: "Suc (stop_dist (pc (main_step v False s))) = stop_dist (pc s)"
    using pcs shape ne fin
    by (cases "pc s") (auto simp: inv_shape_def foo_dtor_def f)
  show ?thesis
    using dist fin' f' main_step_inv_shape [OF shape] main_step_inv_flag [OF shape fl]
    by (simp add: drained_def del: main_step.simps)
qed

lemma drained_run_exit:
  "drained s \<Longrightarrow> stop_dist (pc s) \<le> n \<Longrightarrow> pc (sys_run v (replicate n (Main False)) s) = M_Exit"
proof (induction n arbitrary: s)
  case 0
  then show ?case
    by (cases "pc s") (auto simp: drained_def inv_flag_def inv_shape_def)
next
  case (Suc n)
  show ?case
  proof (cases "pc s = M_Exit")
    case True
    have "sys_run v (replicate n (Main False)) s = s" if "pc s = M_Exit" for n s
      using that by (induction n) simp_all
    with True show ?thesis by (simp del: replicate_Suc add: replicate_Suc)
  next
    case False
    from main_step_drained [OF Suc.prems(1) False, of v]
    have "drained (main_step v False s)" and "stop_dist (pc (main_step v False s)) \<le> n"
      using Suc.prems(2) by (simp_all del: main_step.simps)
    then have "pc (sys_run v (replicate n (Main False)) (main_step v False s)) = M_Exit"
      by (rule Suc.IH)
    then show ?thesis by (simp del: main_step.simps)
  qed
qed

text \<open>What the invariant says at the report: each worker made at most one
  increment after \<^verbatim>\<open>ckp2\<close>, and \<^verbatim>\<open>a\<close> one more from the main thread.\<close>

lemma sys_inv_report_bounds:
  assumes "sys_inv s" and "pc s = M_Report"
  shows "(ckp3 s ! 0 = ckp2 s ! 0 + 1 \<or> ckp3 s ! 0 = ckp2 s ! 0 + 2) \<and>
         (ckp3 s ! 1 = ckp2 s ! 1 \<or> ckp3 s ! 1 = ckp2 s ! 1 + 1) \<and>
         (ckp3 s ! 2 = ckp2 s ! 2 \<or> ckp3 s ! 2 = ckp2 s ! 2 + 1)"
proof -
  have b: "ckp3 s ! k = ckp_base s k \<or> ckp3 s ! k = ckp_base s k + 1" if "k < 3" for k
    using report_ckp_bounds [OF assms that] .
  from b [of 0] b [of 1] b [of 2] show ?thesis
    using assms(2) by (simp add: ckp_base_report add.assoc)
qed

subsection \<open>Joining the threads\<close>

text \<open>\<open>join_ok\<close>: a thread object is joinable from its start until the destructor
  joins it, and it is joined only once the thread has returned.  \<open>inv_join\<close>: in
  addition, once \<^verbatim>\<open>main\<close> is past the destructor of object \<open>k\<close> (rank
  \<open>28 - k\<close>), that object's thread is no longer joinable.\<close>

definition join_ok :: "foo \<Rightarrow> bool" where
  "join_ok f \<longleftrightarrow> (m_thread f = NotStarted \<longrightarrow> \<not> joinable f) \<and>
     (\<not> joinable f \<longrightarrow> m_thread f = NotStarted \<or> m_thread f = Finished)"

definition inv_join :: "sys \<Rightarrow> bool" where
  "inv_join s \<longleftrightarrow> (\<forall>k<3. join_ok (objs s ! k) \<and> (28 - k < pc_rank (pc s) \<longrightarrow> \<not> joinable (objs s ! k)))"

lemma join_ok_raw: "join_ok foo_raw"
  by (simp add: join_ok_def foo_raw_def)

lemma join_ok_ctor_step: "join_ok f \<Longrightarrow> join_ok (foo_ctor_step i a f)"
  by (cases a) (simp_all add: join_ok_def)

lemma join_ok_thing_step: "join_ok f \<Longrightarrow> join_ok (do_thing_step c f)"
  by (cases "m_thread f") (simp_all add: join_ok_def do_thing_step.simps)

lemma join_ok_do_work: "join_ok f \<Longrightarrow> join_ok (foo_do_work f)"
  by (simp add: join_ok_def)

lemma join_ok_dtor: "join_ok f \<Longrightarrow> foo_dtor f = Some f' \<Longrightarrow> join_ok f' \<and> \<not> joinable f' \<and>
   m_thread f' = (if joinable f then Finished else m_thread f)"
  by (auto simp: join_ok_def foo_dtor_def split: if_splits)

lemma inv_join_init: "inv_join sys_init"
  by (simp add: inv_join_def sys_init_def join_ok_raw all_less_three)

lemma task_step_inv_join: "inv_join s \<Longrightarrow> inv_join (task_step k s)"
  unfolding inv_join_def task_step_def
  by (auto simp: nth_list_update join_ok_thing_step split: if_splits)

lemma main_step_inv_join:
  assumes shape: "inv_shape s" and j: "inv_join s"
  shows "inv_join (main_step v sp s)"
proof (cases "pc s")
  case (M_Ctor k j)
  then show ?thesis using shape j
    by (auto simp: inv_join_def inv_shape_def nth_list_update join_ok_ctor_step)
next
  case (M_Dtor k)
  have k: "k < 3" using shape M_Dtor by (simp add: inv_shape_def)
  show ?thesis
  proof (cases "foo_dtor (objs s ! k)")
    case None
    then show ?thesis using M_Dtor j by simp
  next
    case (Some f)
    have f: "join_ok f" "\<not> joinable f" using join_ok_dtor [OF _ Some] j k by (auto simp: inv_join_def)
    have "objs (main_step v sp s) = (objs s)[k := f]"
         "pc_rank (pc (main_step v sp s)) = 29 - k"
      using Some by (simp_all add: M_Dtor)
    then show ?thesis using j f k shape M_Dtor
      by (auto simp: inv_join_def inv_shape_def nth_list_update simp del: main_step.simps)
  qed
next
  case M_DoWork
  then show ?thesis using shape j
    by (auto simp: inv_join_def inv_shape_def nth_list_update join_ok_do_work)
qed (use shape j in \<open>simp_all add: inv_join_def compare_exchange_weak_def inv_shape_def
                                   split: prod.splits\<close>)

lemma reach_inv_join: "reach v s \<Longrightarrow> inv_join s"
proof (induction rule: reach.induct)
  case init
  show ?case by (rule inv_join_init)
next
  case (step s e)
  have "inv_shape s" using reach_sys_inv [OF step.hyps] by (simp add: sys_inv_def)
  with step.IH show ?case
    by (cases e) (simp_all add: main_step_inv_join task_step_inv_join del: main_step.simps)
qed

definition drain_sched :: "event list" where
  "drain_sched = [Task 0, Task 0, Task 1, Task 1, Task 2, Task 2] @ replicate 13 (Main False)"

lemma task_step_other: "k \<noteq> k' \<Longrightarrow> objs (task_step k' s) ! k = objs s ! k"
  by (simp add: task_step_def)

text \<open>Once the flag is set, two steps of a worker's thread take it out of its loop,
  with at most the one increment it had already decided on.\<close>

lemma task_pair_stops:
  assumes "reach v s" and "flag s" and "k < 3"
  shows "m_thread (objs (sys_run v [Task k, Task k] s) ! k) = Finished \<and>
         (m_v (objs (sys_run v [Task k, Task k] s) ! k) = m_v (objs s ! k) \<or>
          m_v (objs (sys_run v [Task k, Task k] s) ! k) = m_v (objs s ! k) + 1)"
proof -
  have len: "length (objs s) = 3" using reach_sys_inv [OF assms(1)] by (simp add: sys_inv_def inv_shape_def)
  have "m_v (objs (sys_run v [Task k, Task k] s) ! k) = m_v (objs s ! k) \<or>
        m_v (objs (sys_run v [Task k, Task k] s) ! k) = m_v (objs s ! k) + 1"
    using assms(2,3) len by (simp add: task_step_def split: task_pc.splits)
  with task_pair_finishes [OF assms] show ?thesis by simp
qed

text \<open>With the flag set, two steps of each worker and thirteen of the main thread
  take the program through the samples, the report and the destructors to its end.\<close>

lemma drain_sched_exits:
  assumes r: "reach v s" and f: "flag s"
  shows "pc (sys_run v drain_sched s) = M_Exit"
proof -
  define s1 where "s1 = sys_run v [Task 0, Task 0] s"
  define s2 where "s2 = sys_run v [Task 1, Task 1] s1"
  define s3 where "s3 = sys_run v [Task 2, Task 2] s2"
  have r1: "reach v s1" unfolding s1_def by (rule reach_run [OF r])
  have r2: "reach v s2" unfolding s2_def by (rule reach_run [OF r1])
  have r3: "reach v s3" unfolding s3_def by (rule reach_run [OF r2])
  have f1: "flag s1" "flag s2" "flag s3" using f by (simp_all add: s1_def s2_def s3_def)
  have "m_thread (objs s1 ! 0) = Finished" unfolding s1_def by (rule task_pair_finishes [OF r f]) simp
  then have a: "m_thread (objs s3 ! 0) = Finished" by (simp add: s2_def s3_def task_step_other)
  have "m_thread (objs s2 ! 1) = Finished" unfolding s2_def by (rule task_pair_finishes [OF r1 f1(1)]) simp
  then have b: "m_thread (objs s3 ! 1) = Finished" by (simp add: s3_def task_step_other)
  have c: "m_thread (objs s3 ! 2) = Finished" unfolding s3_def by (rule task_pair_finishes [OF r2 f1(2)]) simp
  have inv: "sys_inv s3" using r3 by (rule reach_sys_inv)
  have d: "drained s3" using inv f1(3) a b c by (simp add: drained_def sys_inv_def all_less_three)
  have "stop_dist (pc s3) \<le> 13"
    using inv f1(3) by (cases "pc s3") (auto simp: sys_inv_def inv_flag_def)
  with d have "pc (sys_run v (replicate 13 (Main False)) s3) = M_Exit" by (rule drained_run_exit)
  then show ?thesis by (simp add: drain_sched_def sys_run_append s1_def s2_def s3_def)
qed

end
