(* ===== verification/Memory.thy ===== *)
theory Memory
  imports Atomic
begin

text \<open>
  The C++ memory model for the atomic accesses the program makes, as an operational
  machine with message histories and thread views (the view-based reading of
  release/acquire: every location has a list of the values written to it, in its
  modification order; every thread has a view, the position in each list below
  which it can no longer read).

  \<^item> A message is a written value together with the view it carries: a
    \<^verbatim>\<open>release\<close> write carries the writer's view, a relaxed write only its own
    position.
  \<^item> A load may read any message at or after the thread's view of the location.
    Which one is the scheduler's choice, given as a staleness \<open>i\<close>: the load
    reads \<open>i\<close> messages before the latest, or the oldest message the view still
    allows.  An \<^verbatim>\<open>acquire\<close> load joins the message's view into the thread's.
  \<^item> A read-modify-write (\<^verbatim>\<open>fetch_add\<close>, a successful CAS) reads the latest
    message and appends its result right after it; its message also carries the
    view of the message it read (release sequences, C++20 [intro.races]/5).
  \<^item> A \<^verbatim>\<open>seq_cst\<close> access reads the latest message.  Every access of
    \<^verbatim>\<open>main_seqcst_padding.cpp\<close> is \<^verbatim>\<open>seq_cst\<close>, and for a program whose
    atomics are all \<^verbatim>\<open>seq_cst\<close> this is the sequentially consistent interleaving
    the standard promises ([atomics.order]/4).
\<close>

subsection \<open>Orders, locations, views\<close>

text \<open>The values of \<^verbatim>\<open>std::memory_order\<close> the program uses.\<close>

datatype mem_order = Relaxed | Acquire | Release | Seq_Cst

fun is_acquire :: "mem_order \<Rightarrow> bool" where
  "is_acquire Relaxed = False"
| "is_acquire Acquire = True"
| "is_acquire Release = False"
| "is_acquire Seq_Cst = True"

fun is_release :: "mem_order \<Rightarrow> bool" where
  "is_release Relaxed = False"
| "is_release Acquire = False"
| "is_release Release = True"
| "is_release Seq_Cst = True"

text \<open>The shared atomic locations: the stop flag \<^verbatim>\<open>Foo::m_cond\<close> and the
  counter \<^verbatim>\<open>m_v\<close> of object \<open>k\<close>.\<close>

datatype loc = Cond | Ctr nat

type_synonym view = "loc \<Rightarrow> nat"

type_synonym 'v hist = "('v \<times> view) list"

text \<open>Views are ordered pointwise; \<open>sup\<close> joins two views and \<open>bot\<close> is the
  empty view.\<close>

definition latest :: "'v hist \<Rightarrow> nat" where
  "latest h = length h - 1"

definition last_val :: "'v hist \<Rightarrow> 'v" where
  "last_val h = fst (h ! latest h)"

subsection \<open>Accesses\<close>

text \<open>The position a load reads.\<close>

definition read_ts :: "mem_order \<Rightarrow> loc \<Rightarrow> view \<Rightarrow> 'v hist \<Rightarrow> nat \<Rightarrow> nat" where
  "read_ts ord x V h i = (if ord = Seq_Cst then latest h else max (V x) (latest h - i))"

text \<open>\<^verbatim>\<open>x.load(ord)\<close>: the value read and the thread's new view.\<close>

definition load :: "mem_order \<Rightarrow> loc \<Rightarrow> nat \<Rightarrow> view \<Rightarrow> 'v hist \<Rightarrow> 'v \<times> view" where
  "load ord x i V h =
     (let t = read_ts ord x V h i; (v, mv) = h ! t; V' = V(x := t) in
      (v, if is_acquire ord then sup V' mv else V'))"

text \<open>\<^verbatim>\<open>x.store(v, ord)\<close>: the thread's new view and the new history.\<close>

definition store :: "mem_order \<Rightarrow> loc \<Rightarrow> 'v \<Rightarrow> view \<Rightarrow> 'v hist \<Rightarrow> view \<times> 'v hist" where
  "store ord x v V h =
     (let V' = V(x := length h) in
      (V', h @ [(v, if is_release ord then V' else bot(x := length h))]))"

text \<open>A read-modify-write with update \<open>f\<close>: the value read, the thread's new
  view and the new history.\<close>

definition rmw ::
  "mem_order \<Rightarrow> loc \<Rightarrow> ('v \<Rightarrow> 'v) \<Rightarrow> view \<Rightarrow> 'v hist \<Rightarrow> 'v \<times> view \<times> 'v hist" where
  "rmw ord x f V h =
     (let (v, mv) = h ! latest h;
          V' = (if is_acquire ord then sup V mv else V)(x := length h);
          mv' = sup (if is_release ord then V' else bot(x := length h)) mv in
      (v, V', h @ [(f v, mv')]))"

text \<open>\<^verbatim>\<open>x.compare_exchange_weak(expected, desired, succ, fail)\<close> with the
  spurious-failure choice \<open>sp\<close>: it succeeds when it reads the latest message,
  finds \<open>expected\<close> there and does not fail spuriously, and is then a
  read-modify-write; otherwise it is a load with the failure order, and
  \<open>expected\<close> receives the value it read.  The result is the returned flag, the
  new \<open>expected\<close>, the thread's new view and the new history.\<close>

definition cas_weak ::
  "bool \<Rightarrow> mem_order \<Rightarrow> mem_order \<Rightarrow> loc \<Rightarrow> nat \<Rightarrow> 'v \<Rightarrow> 'v \<Rightarrow> view \<Rightarrow> 'v hist \<Rightarrow>
   bool \<times> 'v \<times> view \<times> 'v hist" where
  "cas_weak sp succ fail x i expected desired V h =
     (if \<not> sp \<and> read_ts fail x V h i = latest h \<and> last_val h = expected then
        (case rmw succ x (\<lambda>_. desired) V h of (_, V', h') \<Rightarrow> (True, expected, V', h'))
      else (case load fail x i V h of (v, V') \<Rightarrow> (False, v, V', h)))"

subsection \<open>Reading the latest message\<close>

text \<open>A load whose staleness is 0, and every \<^verbatim>\<open>seq_cst\<close> load, reads the
  latest message, provided the thread's view lies inside the history.\<close>

lemma read_ts_fresh:
  "V x \<le> latest h \<Longrightarrow> ord = Seq_Cst \<or> i = 0 \<Longrightarrow> read_ts ord x V h i = latest h"
  by (auto simp: read_ts_def)

lemma read_ts_bounds:
  "V x \<le> latest h \<Longrightarrow> V x \<le> read_ts ord x V h i \<and> read_ts ord x V h i \<le> latest h"
  by (auto simp: read_ts_def)

lemma load_fst: "fst (load ord x i V h) = fst (h ! read_ts ord x V h i)"
  by (simp add: load_def Let_def split: prod.splits)

lemma load_fresh:
  "V x \<le> latest h \<Longrightarrow> ord = Seq_Cst \<or> i = 0 \<Longrightarrow> fst (load ord x i V h) = last_val h"
  by (simp add: load_fst read_ts_fresh last_val_def)

lemma latest_append [simp]: "latest (h @ [m]) = length h"
  by (simp add: latest_def)

lemma last_val_append [simp]: "last_val (h @ [m]) = fst m"
  by (simp add: last_val_def)

lemma store_hist: "snd (store ord x v V h) = h @ [(v, snd (snd (store ord x v V h) ! length h))]"
  by (simp add: store_def Let_def)

lemma store_fst: "fst (store ord x v V h) = V(x := length h)"
  by (simp add: store_def Let_def)

lemma rmw_hist:
  "snd (snd (rmw ord x f V h)) =
     h @ [(f (last_val h), snd (snd (snd (rmw ord x f V h)) ! length h))]"
  by (simp add: rmw_def Let_def last_val_def split: prod.splits)

lemma rmw_fst: "fst (rmw ord x f V h) = last_val h"
  by (simp add: rmw_def Let_def last_val_def split: prod.splits)

lemma rmw_view_at: "fst (snd (rmw ord x f V h)) x = length h"
  by (simp add: rmw_def Let_def split: prod.splits)

lemmas access_hist = store_hist rmw_hist

text \<open>Interface with the interleaving reading of \<open>Atomic\<close>: a fresh
  compare-exchange is \<open>compare_exchange_weak\<close> on the latest value; a failing one
  leaves the history as it is.\<close>

lemma rmw_last_val [simp]: "last_val (snd (snd (rmw ord x f V h))) = f (last_val h)"
  by (subst rmw_hist) simp

lemma cas_weak_fresh:
  assumes "V x \<le> latest h" and "fail = Seq_Cst \<or> i = 0"
  shows "(case cas_weak sp succ fail x i e d V h of (ok, e', V', h') \<Rightarrow> (ok, last_val h', e')) =
         compare_exchange_weak sp (last_val h) e d"
proof -
  have t: "read_ts fail x V h i = latest h" using assms by (rule read_ts_fresh)
  have l: "fst (load fail x i V h) = last_val h" using assms by (rule load_fresh)
  show ?thesis
  proof (cases "\<not> sp \<and> last_val h = e")
    case True
    with t show ?thesis by (simp add: cas_weak_def compare_exchange_weak_def case_prod_beta)
  next
    case False
    with t l show ?thesis by (auto simp: cas_weak_def compare_exchange_weak_def case_prod_beta)
  qed
qed

lemma cas_weak_hist:
  "cas_weak sp succ fail x i e d V h = (ok, e', V', h') \<Longrightarrow>
   h' = (if ok then snd (snd (rmw succ x (\<lambda>_. d) V h)) else h)"
  by (auto simp: cas_weak_def split: if_splits prod.splits)

lemma cas_weak_ok:
  "cas_weak sp succ fail x i e d V h = (True, e', V', h') \<Longrightarrow> last_val h = e \<and> e' = e"
  by (auto simp: cas_weak_def split: if_splits prod.splits)

subsection \<open>Views stay inside the histories\<close>

text \<open>\<open>T\<close> bounds every view by the latest position of each location.  If
  the thread's view and the views carried by the messages lie below \<open>T\<close>, so do
  the views after a load, and after a store or read-modify-write on \<open>x\<close> they lie
  below \<open>T\<close> with \<open>x\<close>'s new latest position.\<close>

lemma view_upd_le: "W \<le> T \<Longrightarrow> n \<le> m \<Longrightarrow> W(x := n) \<le> T(x := m)"
  by (rule le_funI) (simp add: le_fun_def)

lemma view_le_grow: "V \<le> T \<Longrightarrow> T x = latest h \<Longrightarrow> V \<le> T(x := length h)"
  unfolding le_fun_def latest_def by (metis diff_le_self fun_upd_apply le_trans)

lemma hist_nth_mem: "h \<noteq> [] \<Longrightarrow> t \<le> latest h \<Longrightarrow> h ! t \<in> set h"
  by (rule nth_mem) (cases h, auto simp: latest_def)

lemma hist_views_grow:
  "\<forall>m\<in>set g. snd m \<le> T \<Longrightarrow> T x = latest h \<Longrightarrow> \<forall>m\<in>set g. snd m \<le> T(x := length h)"
  using view_le_grow [of _ T x h] by simp

lemma hist_append_le:
  "\<forall>m\<in>set h. snd m \<le> T \<Longrightarrow> mv \<le> T \<Longrightarrow> \<forall>m\<in>set (h @ [(a, mv)]). snd m \<le> T"
  by auto

lemma load_view_le:
  assumes "V \<le> T" and "\<forall>m\<in>set h. snd m \<le> T" and "T x = latest h" and "h \<noteq> []"
  shows "snd (load ord x i V h) \<le> T"
proof -
  let ?t = "read_ts ord x V h i"
  have "V x \<le> latest h" using assms(1,3) le_funD by metis
  then have t: "?t \<le> latest h" by (simp add: read_ts_bounds)
  then have m: "snd (h ! ?t) \<le> T" using assms(2) hist_nth_mem [OF assms(4)] by blast
  have "T(x := latest h) = T" using assms(3) by auto
  then have V: "V(x := ?t) \<le> T" using view_upd_le [OF assms(1) t, of x] by simp
  have "snd (load ord x i V h) = (if is_acquire ord then sup (V(x := ?t)) (snd (h ! ?t)) else V(x := ?t))"
    by (simp add: load_def Let_def split: prod.splits)
  with m V show ?thesis by simp
qed

lemma store_view_le:
  assumes "V \<le> T" and "\<forall>m\<in>set h. snd m \<le> T" and "T x = latest h"
  shows "fst (store ord x v V h) \<le> T(x := length h) \<and>
         (\<forall>m\<in>set (snd (store ord x v V h)). snd m \<le> T(x := length h))"
proof -
  have V: "V(x := length h) \<le> T(x := length h)" using view_upd_le [OF assms(1)] by simp
  have b: "(bot :: view)(x := length h) \<le> T(x := length h)" using view_upd_le [of bot T] by simp
  show ?thesis using V b hist_views_grow [OF assms(2,3)]
    by (simp add: store_def Let_def)
qed

lemma rmw_view_le:
  assumes "V \<le> T" and "\<forall>m\<in>set h. snd m \<le> T" and "T x = latest h" and "h \<noteq> []"
  shows "fst (snd (rmw ord x f V h)) \<le> T(x := length h) \<and>
         (\<forall>m\<in>set (snd (snd (rmw ord x f V h))). snd m \<le> T(x := length h))"
proof -
  let ?mv = "snd (h ! latest h)"
  have m: "?mv \<le> T(x := length h)"
    using hist_views_grow [OF assms(2,3)] hist_nth_mem [OF assms(4), of "latest h"] by blast
  have m0: "?mv \<le> T" using assms(2) hist_nth_mem [OF assms(4), of "latest h"] by blast
  let ?V1 = "(if is_acquire ord then sup V ?mv else V)"
  have V1: "?V1 \<le> T" using assms(1) m0 by simp
  have V': "?V1(x := length h) \<le> T(x := length h)" using view_upd_le [OF V1] by simp
  have b: "(bot :: view)(x := length h) \<le> T(x := length h)" using view_upd_le [of bot T] by simp
  have r: "rmw ord x f V h = (fst (h ! latest h), ?V1(x := length h),
             h @ [(f (fst (h ! latest h)),
                   sup (if is_release ord then ?V1(x := length h) else bot(x := length h)) ?mv)])"
    by (simp add: rmw_def Let_def split: prod.splits)
  have msg: "sup (if is_release ord then ?V1(x := length h) else bot(x := length h)) ?mv
               \<le> T(x := length h)"
    using V' b m by (cases "is_release ord") simp_all
  show ?thesis unfolding r fst_conv snd_conv
    using V' hist_append_le [OF hist_views_grow [OF assms(2,3)] msg] by (rule conjI)
qed

subsection \<open>Results of the accesses\<close>

lemma store_result:
  "store ord x v V h = (V', h') \<Longrightarrow>
   h' \<noteq> [] \<and> last_val h' = v \<and> latest h' = length h \<and> V' = V(x := length h)"
  by (auto simp: store_def Let_def)

lemma rmw_result:
  "rmw ord x f V h = (a, V', h') \<Longrightarrow>
   h' \<noteq> [] \<and> a = last_val h \<and> last_val h' = f (last_val h) \<and> latest h' = length h"
proof -
  assume r: "rmw ord x f V h = (a, V', h')"
  obtain m where e: "h' = h @ [(f (last_val h), m)]"
    using rmw_hist [of ord x f V h] r by simp
  have "a = last_val h" using rmw_fst [of ord x f V h] r by simp
  with e show ?thesis by simp
qed

lemma cas_weak_cases:
  "cas_weak sp succ fail x i e d V h = (ok, e', V', h') \<Longrightarrow>
   (ok \<and> rmw succ x (\<lambda>_. d) V h = (last_val h, V', h')) \<or>
   (\<not> ok \<and> h' = h \<and> load fail x i V h = (e', V'))"
  using rmw_fst [of succ x "\<lambda>_. d" V h]
  by (auto simp: cas_weak_def split: if_splits prod.splits)

end
