(* ===== verification/WeakDriver.thy ===== *)
theory WeakDriver
  imports Driver Memory
begin

text \<open>
  The whole program of \<open>Driver\<close> run over the memory model of \<open>Memory\<close>.  The
  state extends the interleaving state \<open>sys\<close> with the history of
  \<^verbatim>\<open>Foo::m_cond\<close>, the histories of the three counters and the views of the
  main thread and of the three worker threads.  The fields of \<open>sys\<close> keep their
  meaning: \<open>flag\<close> and the \<open>m_v\<close> of each object hold the latest value of their
  location, and the main thread's locals hold the values its loads returned, which
  may now be older ones.  Each access uses the memory order of its source line,
  \<open>site_order\<close>; \<open>truncate\<close> forgets the memory and gives back the
  interleaving state.
\<close>

subsection \<open>Memory orders of the program's accesses\<close>

datatype site =
    S_Store      \<comment> \<open>line 18: \<^verbatim>\<open>m_v.store(i, ...)\<close>\<close>
  | S_FetchAdd   \<comment> \<open>line 34 (32 in the padded file): \<^verbatim>\<open>m_v.fetch_add(1, ...)\<close>\<close>
  | S_Count      \<comment> \<open>line 40 (38): \<^verbatim>\<open>m_v.load(...)\<close> in \<^verbatim>\<open>count()\<close>\<close>
  | S_TaskLoad   \<comment> \<open>line 61: \<^verbatim>\<open>m_cond.load(...)\<close> in \<^verbatim>\<open>do_thing\<close>\<close>
  | S_Poll       \<comment> \<open>line 99: \<^verbatim>\<open>m_cond.load(...)\<close> in \<^verbatim>\<open>main\<close>\<close>
  | S_LoadFw     \<comment> \<open>line 106: \<^verbatim>\<open>finish_work = m_cond.load(...)\<close>\<close>
  | S_CasOk      \<comment> \<open>line 109: success order of the CAS\<close>
  | S_CasFail    \<comment> \<open>line 110: failure order of the CAS\<close>

fun site_order :: "variant \<Rightarrow> site \<Rightarrow> mem_order" where
  "site_order SeqCstPadding _ = Seq_Cst"
| "site_order AcqRelMain S_Store = Release"
| "site_order AcqRelMain S_FetchAdd = Release"
| "site_order AcqRelMain S_Count = Acquire"
| "site_order AcqRelMain S_TaskLoad = Acquire"
| "site_order AcqRelMain S_Poll = Relaxed"
| "site_order AcqRelMain S_LoadFw = Acquire"
| "site_order AcqRelMain S_CasOk = Release"
| "site_order AcqRelMain S_CasFail = Relaxed"

subsection \<open>State\<close>

record wsys = sys +
  cond_h :: "bool hist"
  ctr_h :: "int32 hist list"
  main_view :: view
  task_view :: "view list"

text \<open>Before \<^verbatim>\<open>main\<close> starts: \<^verbatim>\<open>Foo::m_cond\<close> holds its initial value
  \<open>false\<close> (line 67), the counters' storage its indeterminate bytes (0, as in
  \<open>foo_raw\<close>).\<close>

definition wsys_init :: wsys where
  "wsys_init = \<lparr>flag = False, objs = [foo_raw, foo_raw, foo_raw], pc = M_Ctor 0 0,
     ckp1 = [0, 0, 0], ckp2 = [0, 0, 0], ckp3 = [0, 0, 0], cnt = 0,
     finish_work = False, spurious = 0, report = [],
     cond_h = [(False, bot)], ctr_h = [[(0, bot)], [(0, bot)], [(0, bot)]],
     main_view = bot, task_view = [bot, bot, bot]\<rparr>"

subsection \<open>Steps\<close>

text \<open>The constructor's memory effects on object \<open>k\<close>: the initialiser
  \<^verbatim>\<open>m_v{0}\<close> writes 0 (a non-atomic initialisation, a relaxed write here); starting
  the thread passes the constructing thread's view to the new thread (the
  \<^verbatim>\<open>std::thread\<close> constructor synchronises with the start of
  \<^verbatim>\<open>do_thing\<close>, [thread.thread.constr]/6); \<^verbatim>\<open>m_v.store(i)\<close> writes the seed.\<close>

fun ctor_mem :: "variant \<Rightarrow> nat \<Rightarrow> ctor_action \<Rightarrow> wsys \<Rightarrow> wsys" where
  "ctor_mem v k InitCounter s =
     (case store Relaxed (Ctr k) 0 (main_view s) (ctr_h s ! k) of
        (V', h') \<Rightarrow> s\<lparr>ctr_h := (ctr_h s)[k := h'], main_view := V'\<rparr>)"
| "ctor_mem v k SpawnThread s = s\<lparr>task_view := (task_view s)[k := main_view s]\<rparr>"
| "ctor_mem v k StoreSeed s =
     (case store (site_order v S_Store) (Ctr k) (seeds ! k) (main_view s) (ctr_h s ! k) of
        (V', h') \<Rightarrow> s\<lparr>ctr_h := (ctr_h s)[k := h'], main_view := V'\<rparr>)"

text \<open>\<^verbatim>\<open>count()\<close> of object \<open>k\<close> by the main thread, with staleness \<open>i\<close>.\<close>

definition w_count :: "variant \<Rightarrow> nat \<Rightarrow> nat \<Rightarrow> wsys \<Rightarrow> int32 \<times> view" where
  "w_count v k i s = load (site_order v S_Count) (Ctr k) i (main_view s) (ctr_h s ! k)"

text \<open>One step of the main thread, as \<open>main_step\<close> with every access going
  through the memory: \<open>sp\<close> is the spurious-failure choice of the CAS and \<open>i\<close>
  the staleness of the step's load.\<close>

fun w_main_step :: "variant \<Rightarrow> bool \<Rightarrow> nat \<Rightarrow> wsys \<Rightarrow> wsys" where
  "w_main_step v sp i s =
     (case pc s of
        M_Ctor k j \<Rightarrow>
          ctor_mem v k (ctor_order (variant_layout v) ! j)
            (s\<lparr>objs := (objs s)[k := foo_ctor_step (seeds ! k) (ctor_order (variant_layout v) ! j)
                                     (objs s ! k)],
               pc := (if j < 2 then M_Ctor k (Suc j) else if k < 2 then M_Ctor (Suc k) 0
                      else M_Sleep1)\<rparr>)
      | M_Sleep1 \<Rightarrow> s\<lparr>pc := M_Ckp1 0\<rparr>
      | M_Ckp1 k \<Rightarrow>
          (case w_count v k i s of (c, V') \<Rightarrow>
             s\<lparr>ckp1 := (ckp1 s)[k := c], main_view := V',
               pc := (if k < 2 then M_Ckp1 (Suc k) else M_Poll)\<rparr>)
      | M_Poll \<Rightarrow>
          (case load (site_order v S_Poll) Cond i (main_view s) (cond_h s) of (c, V') \<Rightarrow>
             s\<lparr>main_view := V', pc := (if c then M_Ckp2 0 else M_Count)\<rparr>)
      | M_Count \<Rightarrow>
          (case w_count v 0 i s of (c, V') \<Rightarrow>
             s\<lparr>cnt := c, main_view := V',
               pc := (if signal_reached v c then M_LoadFw else M_Poll)\<rparr>)
      | M_LoadFw \<Rightarrow>
          (case load (site_order v S_LoadFw) Cond i (main_view s) (cond_h s) of (c, V') \<Rightarrow>
             s\<lparr>finish_work := c, main_view := V', pc := M_Cas\<rparr>)
      | M_Cas \<Rightarrow>
          (case cas_weak sp (site_order v S_CasOk) (site_order v S_CasFail) Cond i
                  (finish_work s) True (main_view s) (cond_h s) of
             (ok, fw', V', h') \<Rightarrow>
               if \<not> ok \<and> \<not> fw' then
                 s\<lparr>flag := last_val h', finish_work := fw', spurious := spurious s + 1,
                   cond_h := h', main_view := V'\<rparr>
               else s\<lparr>flag := last_val h', finish_work := fw', pc := M_Poll,
                      cond_h := h', main_view := V'\<rparr>)
      | M_Ckp2 k \<Rightarrow>
          (case w_count v k i s of (c, V') \<Rightarrow>
             s\<lparr>ckp2 := (ckp2 s)[k := c], main_view := V',
               pc := (if k < 2 then M_Ckp2 (Suc k) else M_DoWork)\<rparr>)
      | M_DoWork \<Rightarrow>
          (case rmw (site_order v S_FetchAdd) (Ctr 0) (\<lambda>x. x + 1) (main_view s) (ctr_h s ! 0) of
             (_, V', h') \<Rightarrow>
               s\<lparr>objs := (objs s)[0 := foo_do_work (objs s ! 0)], pc := M_Sleep2,
                 ctr_h := (ctr_h s)[0 := h'], main_view := V'\<rparr>)
      | M_Sleep2 \<Rightarrow> s\<lparr>pc := M_Ckp3 0\<rparr>
      | M_Ckp3 k \<Rightarrow>
          (case w_count v k i s of (c, V') \<Rightarrow>
             s\<lparr>ckp3 := (ckp3 s)[k := c], main_view := V',
               pc := (if k < 2 then M_Ckp3 (Suc k) else M_Report)\<rparr>)
      | M_Report \<Rightarrow>
          s\<lparr>report := [ckp3 s ! 0 = ckp2 s ! 0 + 1, ckp3 s ! 1 = ckp2 s ! 1,
                       ckp3 s ! 2 = ckp2 s ! 2],
            pc := M_Dtor 2\<rparr>
      | M_Dtor k \<Rightarrow>
          (case foo_dtor (objs s ! k) of
             None \<Rightarrow> s
           | Some f \<Rightarrow>
               s\<lparr>objs := (objs s)[k := f],
                 pc := (if k = 0 then M_Exit else M_Dtor (k - 1)),
                 main_view := (if joinable (objs s ! k) then sup (main_view s) (task_view s ! k)
                               else main_view s)\<rparr>)
      | M_Exit \<Rightarrow> s)"

text \<open>One step of the thread running \<^verbatim>\<open>do_thing\<close> on object \<open>k\<close>: the loop
  test loads the flag with staleness \<open>i\<close>; the body's \<^verbatim>\<open>fetch_add\<close> reads and
  writes the latest counter value (it does not read the flag, so
  \<open>do_thing_step\<close> gets the latest flag value, which it ignores there).\<close>

definition w_task_step :: "variant \<Rightarrow> nat \<Rightarrow> nat \<Rightarrow> wsys \<Rightarrow> wsys" where
  "w_task_step v k i s =
     (if k < length (objs s) then
        (case m_thread (objs s ! k) of
           Check \<Rightarrow>
             (case load (site_order v S_TaskLoad) Cond i (task_view s ! k) (cond_h s) of
                (c, V') \<Rightarrow> s\<lparr>objs := (objs s)[k := do_thing_step c (objs s ! k)],
                             task_view := (task_view s)[k := V']\<rparr>)
         | Work \<Rightarrow>
             (case rmw (site_order v S_FetchAdd) (Ctr k) (\<lambda>x. x + 1) (task_view s ! k)
                     (ctr_h s ! k) of
                (_, V', h') \<Rightarrow> s\<lparr>objs := (objs s)[k := do_thing_step (flag s) (objs s ! k)],
                                ctr_h := (ctr_h s)[k := h'], task_view := (task_view s)[k := V']\<rparr>)
         | _ \<Rightarrow> s)
      else s)"

datatype wevent = WMain bool nat | WTask nat nat

fun w_step :: "variant \<Rightarrow> wevent \<Rightarrow> wsys \<Rightarrow> wsys" where
  "w_step v (WMain sp i) s = w_main_step v sp i s"
| "w_step v (WTask k i) s = w_task_step v k i s"

fun w_run :: "variant \<Rightarrow> wevent list \<Rightarrow> wsys \<Rightarrow> wsys" where
  "w_run v [] s = s"
| "w_run v (e # es) s = w_run v es (w_step v e s)"

inductive w_reach :: "variant \<Rightarrow> wsys \<Rightarrow> bool" for v :: variant where
  init: "w_reach v wsys_init"
| step: "w_reach v s \<Longrightarrow> w_reach v (w_step v e s)"

text \<open>The event of the interleaving model a step corresponds to, and the staleness
  it chose.\<close>

fun erase :: "wevent \<Rightarrow> event" where
  "erase (WMain sp i) = Main sp"
| "erase (WTask k i) = Task k"

fun staleness :: "wevent \<Rightarrow> nat" where
  "staleness (WMain sp i) = i"
| "staleness (WTask k i) = i"

text \<open>The event of the memory model that reads the latest message wherever the
  interleaving model's event reads.\<close>

fun fresh_event :: "event \<Rightarrow> wevent" where
  "fresh_event (Main sp) = WMain sp 0"
| "fresh_event (Task k) = WTask k 0"

subsection \<open>A schedule of scenario B with a stale flag\<close>

text \<open>Scenario B with every load reading the latest message: construction,
  \<^verbatim>\<open>a\<close>'s thread counting to 10, the polling loop, the stop, \<^verbatim>\<open>ckp2\<close>.
  Then \<^verbatim>\<open>b\<close>'s thread runs \<open>n\<close> iterations whose loop test reads the
  flag one message before the latest, i.e.\ the initial \<open>false\<close>, and the main
  thread finishes with fresh loads.\<close>

definition stop_prefix :: "wevent list" where
  "stop_prefix = replicate 9 (WMain False 0) @ replicate 18 (WTask 0 0) @ replicate 12 (WMain False 0)"

definition spin :: "nat \<Rightarrow> wevent list" where
  "spin n = concat (replicate n [WTask 1 1, WTask 1 0])"

definition stale_b_sched :: "nat \<Rightarrow> wevent list" where
  "stale_b_sched n = stop_prefix @ spin n @ replicate 5 (WMain False 0)"

subsection \<open>The invariant\<close>

text \<open>\<open>tops\<close> is the latest position of each location.  In every reachable
  state the histories are non-empty, the \<open>sys\<close> fields hold the latest values
  (\<open>w_vals\<close>), and every view, of a thread or carried by a message, lies below
  \<open>tops\<close> (\<open>w_views\<close>).\<close>

definition tops :: "bool hist \<Rightarrow> int32 hist list \<Rightarrow> view" where
  "tops hc hs = (\<lambda>x. case x of Cond \<Rightarrow> latest hc
                   | Ctr k \<Rightarrow> if k < length hs then latest (hs ! k) else 0)"

definition views_below :: "view \<Rightarrow> view \<Rightarrow> view list \<Rightarrow> bool hist \<Rightarrow> int32 hist list \<Rightarrow> bool" where
  "views_below T V Vs hc hs \<longleftrightarrow> V \<le> T \<and> (\<forall>W\<in>set Vs. W \<le> T) \<and>
     (\<forall>m\<in>set hc. snd m \<le> T) \<and> (\<forall>g\<in>set hs. \<forall>m\<in>set g. snd m \<le> T)"

definition w_views :: "wsys \<Rightarrow> bool" where
  "w_views s \<longleftrightarrow>
     views_below (tops (cond_h s) (ctr_h s)) (main_view s) (task_view s) (cond_h s) (ctr_h s)"

definition w_vals :: "wsys \<Rightarrow> bool" where
  "w_vals s \<longleftrightarrow> length (ctr_h s) = 3 \<and> length (task_view s) = 3 \<and>
     cond_h s \<noteq> [] \<and> flag s = last_val (cond_h s) \<and>
     (\<forall>k<3. ctr_h s ! k \<noteq> [] \<and> m_v (objs s ! k) = last_val (ctr_h s ! k))"

definition w_ok :: "wsys \<Rightarrow> bool" where
  "w_ok s \<longleftrightarrow> inv_shape (sys.truncate s) \<and> w_vals s \<and> w_views s"

text \<open>Where \<^verbatim>\<open>b\<close>'s thread can keep reading the initial \<open>false\<close>: it is
  at its loop test, its view of the flag is the first message, and the flag's history
  holds that message and one more.\<close>

definition spin_ok :: "wsys \<Rightarrow> bool" where
  "spin_ok s \<longleftrightarrow> m_thread (objs s ! 1) = Check \<and> (task_view s ! 1) Cond = 0 \<and>
     \<not> fst (cond_h s ! 0) \<and> snd (cond_h s ! 0) Cond = 0 \<and> length (cond_h s) = 2 \<and>
     length (objs s) = 3 \<and> length (task_view s) = 3 \<and> length (ctr_h s) = 3"

subsection \<open>Bounds of views\<close>

lemma tops_at [simp]:
  "tops hc hs Cond = latest hc" "k < length hs \<Longrightarrow> tops hc hs (Ctr k) = latest (hs ! k)"
  by (simp_all add: tops_def)

lemma tops_cond_upd: "tops h' hs = (tops hc hs)(Cond := latest h')"
  by (rule ext) (simp add: tops_def split: loc.splits)

lemma tops_ctr_upd:
  "k < length hs \<Longrightarrow> tops hc (hs[k := h']) = (tops hc hs)(Ctr k := latest h')"
  by (rule ext) (auto simp: tops_def nth_list_update split: loc.splits)

lemma set_update_ball:
  "\<forall>y\<in>set xs. P y \<Longrightarrow> P x \<Longrightarrow> \<forall>y\<in>set (xs[k := x]). P y"
  by (metis insert_iff set_update_subset_insert subsetD)

lemma views_below_grow:
  assumes "views_below T V Vs hc hs" and "T x = latest h"
  shows "views_below (T(x := length h)) V Vs hc hs"
  using assms view_le_grow [of _ T x h] unfolding views_below_def by simp

text \<open>A load changes one thread's view, to one below the bound.\<close>

lemma views_below_main: "views_below T V Vs hc hs \<Longrightarrow> V' \<le> T \<Longrightarrow> views_below T V' Vs hc hs"
  by (simp add: views_below_def)

lemma views_below_task:
  "views_below T V Vs hc hs \<Longrightarrow> V' \<le> T \<Longrightarrow> views_below T V (Vs[k := V']) hc hs"
  unfolding views_below_def using set_update_ball [of Vs "\<lambda>W. W \<le> T" V' k] by simp

text \<open>A write appends to one history; its messages lie below the grown bound.\<close>

lemma views_below_ctr:
  "views_below T V Vs hc hs \<Longrightarrow> \<forall>m\<in>set h'. snd m \<le> T \<Longrightarrow>
   views_below T V Vs hc (hs[k := h'])"
  unfolding views_below_def
  using set_update_ball [of hs "\<lambda>g. \<forall>m\<in>set g. snd m \<le> T" h' k] by simp

lemma views_below_cond:
  "views_below T V Vs hc hs \<Longrightarrow> \<forall>m\<in>set h'. snd m \<le> T \<Longrightarrow> views_below T V Vs h' hs"
  by (simp add: views_below_def)

lemma views_below_parts:
  "views_below T V Vs hc hs \<Longrightarrow> V \<le> T"
  "views_below T V Vs hc hs \<Longrightarrow> k < length Vs \<Longrightarrow> Vs ! k \<le> T"
  "views_below T V Vs hc hs \<Longrightarrow> \<forall>m\<in>set hc. snd m \<le> T"
  "views_below T V Vs hc hs \<Longrightarrow> k < length hs \<Longrightarrow> \<forall>m\<in>set (hs ! k). snd m \<le> T"
  by (auto simp: views_below_def)

subsection \<open>The invariant of the memory\<close>

lemma truncate_fields [simp]:
  "flag (sys.truncate s) = flag s" "objs (sys.truncate s) = objs s" "pc (sys.truncate s) = pc s"
  "ckp1 (sys.truncate s) = ckp1 s" "ckp2 (sys.truncate s) = ckp2 s"
  "ckp3 (sys.truncate s) = ckp3 s" "cnt (sys.truncate s) = cnt s"
  "finish_work (sys.truncate s) = finish_work s" "spurious (sys.truncate s) = spurious s"
  "report (sys.truncate s) = report s"
  by (simp_all add: sys.truncate_def)

lemma inv_shape_truncate [simp]:
  "inv_shape (sys.truncate s) \<longleftrightarrow> length (objs s) = 3 \<and> length (ckp2 s) = 3 \<and>
     length (ckp3 s) = 3 \<and> length (ckp1 s) = 3 \<and> pc_ok (pc s)"
  by (simp add: inv_shape_def)

lemma w_ok_hists:
  assumes "w_ok s"
  shows "cond_h s \<noteq> []" "length (ctr_h s) = 3" "length (task_view s) = 3"
    "k < 3 \<Longrightarrow> ctr_h s ! k \<noteq> []" "flag s = last_val (cond_h s)"
    "k < 3 \<Longrightarrow> m_v (objs s ! k) = last_val (ctr_h s ! k)"
    "length (objs s) = 3" "pc_ok (pc s)"
    "length (ckp1 s) = 3" "length (ckp2 s) = 3" "length (ckp3 s) = 3"
  using assms by (auto simp: w_ok_def w_vals_def inv_shape_def)

lemma w_ok_below:
  "w_ok s \<Longrightarrow>
   views_below (tops (cond_h s) (ctr_h s)) (main_view s) (task_view s) (cond_h s) (ctr_h s)"
  by (simp add: w_ok_def w_views_def)

text \<open>Loads by the main thread and by a worker keep the views below the bound.\<close>

lemma w_load_ctr_main:
  assumes "w_ok s" and "k < 3"
  shows "snd (load ord (Ctr k) i (main_view s) (ctr_h s ! k)) \<le> tops (cond_h s) (ctr_h s)"
  using load_view_le [OF views_below_parts(1) [OF w_ok_below [OF assms(1)]]
                         views_below_parts(4) [OF w_ok_below [OF assms(1)]]]
        w_ok_hists [OF assms(1)] assms(2) by simp

lemma w_load_cond_main:
  assumes "w_ok s"
  shows "snd (load ord Cond i (main_view s) (cond_h s)) \<le> tops (cond_h s) (ctr_h s)"
  using load_view_le [OF views_below_parts(1) [OF w_ok_below [OF assms(1)]]
                         views_below_parts(3) [OF w_ok_below [OF assms(1)]]]
        w_ok_hists [OF assms(1)] by simp

lemma w_load_cond_task:
  assumes "w_ok s" and "k < 3"
  shows "snd (load ord Cond i (task_view s ! k) (cond_h s)) \<le> tops (cond_h s) (ctr_h s)"
  using load_view_le [OF views_below_parts(2) [OF w_ok_below [OF assms(1)]]
                         views_below_parts(3) [OF w_ok_below [OF assms(1)]]]
        w_ok_hists [OF assms(1)] assms(2) by simp

text \<open>Steps that only move the main thread's view, and steps that append to one
  history, keep the invariant.\<close>

lemma w_ok_frame:
  assumes "w_ok s" and "inv_shape (sys.truncate s')"
    and "cond_h s' = cond_h s" and "ctr_h s' = ctr_h s" and "length (task_view s') = 3"
    and "flag s' = flag s" and "\<forall>k<3. m_v (objs s' ! k) = m_v (objs s ! k)"
    and "views_below (tops (cond_h s) (ctr_h s)) (main_view s') (task_view s') (cond_h s) (ctr_h s)"
  shows "w_ok s'"
  using assms w_ok_hists [OF assms(1)] by (simp add: w_ok_def w_vals_def w_views_def)

lemma w_ok_ctr_write:
  assumes "w_ok s" and "inv_shape (sys.truncate s')" and "k < 3"
    and "cond_h s' = cond_h s" and "ctr_h s' = (ctr_h s)[k := h']" and "flag s' = flag s"
    and "h' \<noteq> []" and "latest h' = length (ctr_h s ! k)"
    and "m_v (objs s' ! k) = last_val h'"
    and "\<forall>j<3. j \<noteq> k \<longrightarrow> m_v (objs s' ! j) = m_v (objs s ! j)"
    and "length (task_view s') = 3"
    and "views_below ((tops (cond_h s) (ctr_h s))(Ctr k := length (ctr_h s ! k)))
           (main_view s') (task_view s') (cond_h s) (ctr_h s)"
    and "\<forall>m\<in>set h'. snd m \<le> (tops (cond_h s) (ctr_h s))(Ctr k := length (ctr_h s ! k))"
  shows "w_ok s'"
proof -
  have k: "k < length (ctr_h s)" using w_ok_hists(2) [OF assms(1)] assms(3) by simp
  have t: "tops (cond_h s) ((ctr_h s)[k := h']) =
           (tops (cond_h s) (ctr_h s))(Ctr k := length (ctr_h s ! k))"
    using tops_ctr_upd [OF k] assms(8) by simp
  have v: "w_views s'"
    unfolding w_views_def assms(4,5) t using views_below_ctr [OF assms(12,13)] .
  have "w_vals s'"
    using w_ok_hists [OF assms(1)] assms(3-11) by (auto simp: w_vals_def nth_list_update)
  with v assms(2) show ?thesis by (simp add: w_ok_def)
qed

lemma w_ok_cond_write:
  assumes "w_ok s" and "inv_shape (sys.truncate s')"
    and "cond_h s' = h'" and "ctr_h s' = ctr_h s" and "task_view s' = task_view s"
    and "h' \<noteq> []" and "latest h' = length (cond_h s)" and "flag s' = last_val h'"
    and "\<forall>k<3. m_v (objs s' ! k) = m_v (objs s ! k)"
    and "main_view s' \<le> (tops (cond_h s) (ctr_h s))(Cond := length (cond_h s))"
    and "\<forall>m\<in>set h'. snd m \<le> (tops (cond_h s) (ctr_h s))(Cond := length (cond_h s))"
  shows "w_ok s'"
proof -
  let ?T = "tops (cond_h s) (ctr_h s)"
  have T: "?T Cond = latest (cond_h s)" by simp
  have t: "tops h' (ctr_h s) = ?T(Cond := length (cond_h s))"
    using tops_cond_upd [of h' "ctr_h s" "cond_h s"] assms(7) by simp
  have "views_below (?T(Cond := length (cond_h s))) (main_view s') (task_view s) (cond_h s) (ctr_h s)"
    using views_below_main [OF views_below_grow [OF w_ok_below [OF assms(1)] T] assms(10)] .
  then have v: "w_views s'"
    unfolding w_views_def assms(3,4,5) t using views_below_cond [OF _ assms(11)] by blast
  have "w_vals s'"
    using w_ok_hists [OF assms(1)] assms(3-9) by (auto simp: w_vals_def)
  with v assms(2) show ?thesis by (simp add: w_ok_def)
qed

subsection \<open>Every step keeps the invariant\<close>

lemma w_ok_main_load:
  assumes "w_ok s" and "inv_shape (sys.truncate s')"
    and "cond_h s' = cond_h s" and "ctr_h s' = ctr_h s" and "task_view s' = task_view s"
    and "flag s' = flag s" and "objs s' = objs s"
    and "main_view s' \<le> tops (cond_h s) (ctr_h s)"
  shows "w_ok s'"
  using w_ok_frame [OF assms(1,2,3,4)] views_below_main [OF w_ok_below [OF assms(1)] assms(8)]
        assms(5,6,7) w_ok_hists [OF assms(1)] by simp

lemma w_ok_ctor:
  assumes "w_ok s" and "pc s = M_Ctor k j"
  shows "w_ok (w_main_step v sp i s)"
proof -
  let ?a = "ctor_order (variant_layout v) ! j"
  let ?T = "tops (cond_h s) (ctr_h s)"
  have kj: "k < 3" "j < 3" using w_ok_hists(8) [OF assms(1)] assms(2) by simp_all
  have ks: "k < length (ctr_h s)" using w_ok_hists(2) [OF assms(1)] kj by simp
  have b: "views_below ?T (main_view s) (task_view s) (cond_h s) (ctr_h s)"
    by (rule w_ok_below [OF assms(1)])
  have T: "?T (Ctr k) = latest (ctr_h s ! k)" using ks by simp
  define s1 where "s1 = s\<lparr>objs := (objs s)[k := foo_ctor_step (seeds ! k) ?a (objs s ! k)],
                 pc := (if j < 2 then M_Ctor k (Suc j) else if k < 2 then M_Ctor (Suc k) 0
                        else M_Sleep1)\<rparr>"
  have step: "w_main_step v sp i s = ctor_mem v k ?a s1"
    using assms(2) by (simp add: s1_def)
  have sh: "inv_shape (sys.truncate s1)"
    using assms(1) kj by (auto simp: s1_def w_ok_def inv_shape_def)
  have st: "w_ok (s1\<lparr>ctr_h := (ctr_h s)[k := h'], main_view := V'\<rparr>)"
    if s: "store ord (Ctr k) x (main_view s) (ctr_h s ! k) = (V', h')"
    and m: "m_v (foo_ctor_step (seeds ! k) ?a (objs s ! k)) = x" for ord x V' h'
  proof -
    have r: "h' \<noteq> []" "last_val h' = x" "latest h' = length (ctr_h s ! k)"
      using store_result [OF s] by simp_all
    have sv: "V' \<le> ?T(Ctr k := length (ctr_h s ! k)) \<and>
              (\<forall>m\<in>set h'. snd m \<le> ?T(Ctr k := length (ctr_h s ! k)))"
      using store_view_le [OF views_below_parts(1) [OF b] views_below_parts(4) [OF b ks] T,
                           of ord x] s by simp
    show ?thesis
    proof (rule w_ok_ctr_write [OF assms(1) _ kj(1)])
      show "views_below (?T(Ctr k := length (ctr_h s ! k)))
              (main_view (s1\<lparr>ctr_h := (ctr_h s)[k := h'], main_view := V'\<rparr>))
              (task_view (s1\<lparr>ctr_h := (ctr_h s)[k := h'], main_view := V'\<rparr>)) (cond_h s) (ctr_h s)"
        using views_below_main [OF views_below_grow [OF b T]] sv by (simp add: s1_def)
    qed (use sh r sv m w_ok_hists [OF assms(1)] kj in \<open>auto simp: s1_def inv_shape_def nth_list_update\<close>)
  qed
  have s1f: "main_view s1 = main_view s" "ctr_h s1 = ctr_h s" by (simp_all add: s1_def)
  show ?thesis
  proof (cases ?a)
    case InitCounter
    then show ?thesis unfolding step using st [of Relaxed 0]
      by (simp add: s1f del: w_main_step.simps split: prod.splits)
  next
    case StoreSeed
    then show ?thesis unfolding step using st [of "site_order v S_Store" "seeds ! k"]
      by (simp add: s1f del: w_main_step.simps split: prod.splits)
  next
    case SpawnThread
    have "views_below ?T (main_view s) ((task_view s)[k := main_view s]) (cond_h s) (ctr_h s)"
      using views_below_task [OF b views_below_parts(1) [OF b]] .
    then show ?thesis unfolding step using SpawnThread sh w_ok_hists [OF assms(1)] kj
      by (intro w_ok_frame [OF assms(1)]) (simp_all add: s1_def nth_list_update)
  qed
qed

lemma w_ok_rmw_ctr:
  assumes "w_ok s" and "k < 3" and "rmw ord (Ctr k) f V (ctr_h s ! k) = (a, V', h')"
    and "V \<le> tops (cond_h s) (ctr_h s)"
  shows "h' \<noteq> [] \<and> last_val h' = f (last_val (ctr_h s ! k)) \<and> latest h' = length (ctr_h s ! k) \<and>
         V' \<le> (tops (cond_h s) (ctr_h s))(Ctr k := length (ctr_h s ! k)) \<and>
         (\<forall>m\<in>set h'. snd m \<le> (tops (cond_h s) (ctr_h s))(Ctr k := length (ctr_h s ! k))) \<and>
         views_below ((tops (cond_h s) (ctr_h s))(Ctr k := length (ctr_h s ! k)))
           (main_view s) (task_view s) (cond_h s) (ctr_h s)"
proof -
  let ?T = "tops (cond_h s) (ctr_h s)"
  have b: "views_below ?T (main_view s) (task_view s) (cond_h s) (ctr_h s)"
    by (rule w_ok_below [OF assms(1)])
  have ks: "k < length (ctr_h s)" using w_ok_hists(2) [OF assms(1)] assms(2) by simp
  have T: "?T (Ctr k) = latest (ctr_h s ! k)" using ks by simp
  have ne: "ctr_h s ! k \<noteq> []" using w_ok_hists(4) [OF assms(1,2)] .
  show ?thesis
    using rmw_result [OF assms(3)] views_below_grow [OF b T]
          rmw_view_le [OF assms(4) views_below_parts(4) [OF b ks] T ne, of ord f] assms(3) by simp
qed

lemma w_ok_main_step:
  assumes "w_ok s"
  shows "w_ok (w_main_step v sp i s)"
proof -
  let ?T = "tops (cond_h s) (ctr_h s)"
  have b: "views_below ?T (main_view s) (task_view s) (cond_h s) (ctr_h s)"
    by (rule w_ok_below [OF assms(1)])
  note h = w_ok_hists [OF assms(1)]
  note l = w_load_ctr_main [OF assms(1)] w_load_cond_main [OF assms(1)]
  have mv: "main_view s \<le> ?T" by (rule views_below_parts(1) [OF b])
  show ?thesis
  proof (cases "pc s")
    case (M_Ctor k j)
    then show ?thesis by (rule w_ok_ctor [OF assms(1)])
  next
    case M_DoWork
    obtain a V' h' where r: "rmw (site_order v S_FetchAdd) (Ctr 0) (\<lambda>x. x + 1) (main_view s)
                              (ctr_h s ! 0) = (a, V', h')"
      by (cases "rmw (site_order v S_FetchAdd) (Ctr 0) (\<lambda>x. x + 1) (main_view s) (ctr_h s ! 0)")
         auto
    note w = w_ok_rmw_ctr [OF assms(1) _ r mv]
    have wv: "V' \<le> ?T(Ctr 0 := length (ctr_h s ! 0))"
      and wb: "views_below (?T(Ctr 0 := length (ctr_h s ! 0))) (main_view s) (task_view s)
                 (cond_h s) (ctr_h s)"
      using w by simp_all
    show ?thesis
      using M_DoWork r w h views_below_main [OF wb wv]
      by (intro w_ok_ctr_write [OF assms(1), where k = 0 and h' = h'])
         (simp_all add: nth_list_update)
  next
    case M_Cas
    obtain ok fw' V' h' where c: "cas_weak sp (site_order v S_CasOk) (site_order v S_CasFail) Cond i
        (finish_work s) True (main_view s) (cond_h s) = (ok, fw', V', h')"
      by (cases "cas_weak sp (site_order v S_CasOk) (site_order v S_CasFail) Cond i
                   (finish_work s) True (main_view s) (cond_h s)") auto
    show ?thesis
    proof (cases ok)
      case True
      then have r: "rmw (site_order v S_CasOk) Cond (\<lambda>_. True) (main_view s) (cond_h s) =
                    (last_val (cond_h s), V', h')"
        using cas_weak_cases [OF c] by simp
      have T: "?T Cond = latest (cond_h s)" by simp
      have rv: "V' \<le> ?T(Cond := length (cond_h s)) \<and>
                (\<forall>m\<in>set h'. snd m \<le> ?T(Cond := length (cond_h s)))"
        using rmw_view_le [OF mv views_below_parts(3) [OF b] T h(1), of "site_order v S_CasOk"
                               "\<lambda>_. True"] r by simp
      show ?thesis
        using M_Cas c True rmw_result [OF r] rv h
        by (intro w_ok_cond_write [OF assms(1), where h' = h']) simp_all
    next
      case False
      then have r: "h' = cond_h s" "load (site_order v S_CasFail) Cond i (main_view s) (cond_h s) =
                    (fw', V')"
        using cas_weak_cases [OF c] by simp_all
      have "V' \<le> ?T" using l(2) [of "site_order v S_CasFail" i] r(2) by simp
      then show ?thesis
        using M_Cas c False r h
        by (intro w_ok_main_load [OF assms(1)]) simp_all
    qed
  next
    case (M_Dtor k)
    have k: "k < 3" using h(8) M_Dtor by simp
    have sv: "sup (main_view s) (task_view s ! k) \<le> ?T"
      using mv views_below_parts(2) [OF b, of k] h(3) k by simp
    show ?thesis
    proof (cases "foo_dtor (objs s ! k)")
      case None
      then show ?thesis using M_Dtor assms(1) by simp
    next
      case (Some f)
      then have "m_v f = m_v (objs s ! k)" by (auto simp: foo_dtor_def split: if_splits)
      then show ?thesis
        using M_Dtor Some h k mv sv views_below_main [OF b]
        by (intro w_ok_frame [OF assms(1)]) (auto simp: nth_list_update)
    qed
  qed (use h l mv in \<open>(intro w_ok_main_load [OF assms(1)];
                       simp add: w_count_def case_prod_beta)+\<close>)
qed

lemma w_ok_task_step:
  assumes "w_ok s"
  shows "w_ok (w_task_step v k i s)"
proof -
  let ?T = "tops (cond_h s) (ctr_h s)"
  have b: "views_below ?T (main_view s) (task_view s) (cond_h s) (ctr_h s)"
    by (rule w_ok_below [OF assms(1)])
  note h = w_ok_hists [OF assms(1)]
  show ?thesis
  proof (cases "k < 3")
    case False
    then show ?thesis using assms h by (simp add: w_task_step_def)
  next
    case k: True
    have tv: "task_view s ! k \<le> ?T" using views_below_parts(2) [OF b] h(3) k by simp
    show ?thesis
    proof (cases "m_thread (objs s ! k)")
      case Check
      obtain c V' where l: "load (site_order v S_TaskLoad) Cond i (task_view s ! k) (cond_h s) = (c, V')"
        by (cases "load (site_order v S_TaskLoad) Cond i (task_view s ! k) (cond_h s)") auto
      have "V' \<le> ?T" using w_load_cond_task [OF assms(1) k, of "site_order v S_TaskLoad" i] l by simp
      then have "views_below ?T (main_view s) ((task_view s)[k := V']) (cond_h s) (ctr_h s)"
        by (rule views_below_task [OF b])
      then show ?thesis
        using Check l h k
        by (intro w_ok_frame [OF assms(1)]) (auto simp: w_task_step_def nth_list_update)
    next
      case Work
      obtain a V' h' where r: "rmw (site_order v S_FetchAdd) (Ctr k) (\<lambda>x. x + 1) (task_view s ! k)
                                 (ctr_h s ! k) = (a, V', h')"
        by (cases "rmw (site_order v S_FetchAdd) (Ctr k) (\<lambda>x. x + 1) (task_view s ! k)
                     (ctr_h s ! k)") auto
      note w = w_ok_rmw_ctr [OF assms(1) k r tv]
      have wv: "V' \<le> ?T(Ctr k := length (ctr_h s ! k))"
        and wb: "views_below (?T(Ctr k := length (ctr_h s ! k))) (main_view s) (task_view s)
                   (cond_h s) (ctr_h s)"
        using w by simp_all
      show ?thesis
        using Work r w h k views_below_task [OF wb wv]
        by (intro w_ok_ctr_write [OF assms(1), where k = k and h' = h'])
           (auto simp: w_task_step_def nth_list_update do_thing_step.simps)
    qed (use assms h k in \<open>simp_all add: w_task_step_def\<close>)
  qed
qed

lemma w_ok_step: "w_ok s \<Longrightarrow> w_ok (w_step v e s)"
  by (cases e) (simp_all add: w_ok_main_step w_ok_task_step del: w_main_step.simps)

lemma w_ok_init: "w_ok wsys_init"
  by (simp add: w_ok_def w_vals_def w_views_def views_below_def wsys_init_def foo_raw_def
                tops_def last_val_def latest_def all_less_three)

lemma w_reach_ok: "w_reach v s \<Longrightarrow> w_ok s"
  by (induction rule: w_reach.induct) (simp_all add: w_ok_init w_ok_step del: w_step.simps)

subsection \<open>Refinement of the interleaving model\<close>

lemma site_order_fresh:
  "v = SeqCstPadding \<or> i = 0 \<Longrightarrow> site_order v st = Seq_Cst \<or> i = 0"
  by auto

lemma w_view_at:
  assumes "w_ok s"
  shows "main_view s Cond \<le> latest (cond_h s)"
    "k < 3 \<Longrightarrow> main_view s (Ctr k) \<le> latest (ctr_h s ! k)"
    "k < 3 \<Longrightarrow> (task_view s ! k) Cond \<le> latest (cond_h s)"
proof -
  have b: "views_below (tops (cond_h s) (ctr_h s)) (main_view s) (task_view s) (cond_h s) (ctr_h s)"
    by (rule w_ok_below [OF assms])
  note h = w_ok_hists [OF assms]
  show "main_view s Cond \<le> latest (cond_h s)"
    using le_funD [OF views_below_parts(1) [OF b], of Cond] by simp
  show "k < 3 \<Longrightarrow> main_view s (Ctr k) \<le> latest (ctr_h s ! k)"
    using le_funD [OF views_below_parts(1) [OF b], of "Ctr k"] h(2) by simp
  show "k < 3 \<Longrightarrow> (task_view s ! k) Cond \<le> latest (cond_h s)"
    using le_funD [OF views_below_parts(2) [OF b, of k], of Cond] h(3) by simp
qed

lemma w_count_fresh:
  assumes "w_ok s" and "k < 3" and "v = SeqCstPadding \<or> i = 0"
  shows "fst (w_count v k i s) = m_v (objs s ! k)"
proof -
  have "main_view s (Ctr k) \<le> latest (ctr_h s ! k)" by (rule w_view_at(2) [OF assms(1,2)])
  moreover have "site_order v S_Count = Seq_Cst \<or> i = 0" using assms(3) by (rule site_order_fresh)
  ultimately have "fst (load (site_order v S_Count) (Ctr k) i (main_view s) (ctr_h s ! k)) =
                   last_val (ctr_h s ! k)" by (rule load_fresh)
  then show ?thesis using w_ok_hists(6) [OF assms(1,2)] by (simp add: w_count_def)
qed

lemma w_load_cond_fresh:
  assumes "w_ok s" and "v = SeqCstPadding \<or> i = 0"
  shows "fst (load (site_order v st) Cond i (main_view s) (cond_h s)) = flag s"
proof -
  have "main_view s Cond \<le> latest (cond_h s)" by (rule w_view_at(1) [OF assms(1)])
  moreover have "site_order v st = Seq_Cst \<or> i = 0" using assms(2) by (rule site_order_fresh)
  ultimately show ?thesis using w_ok_hists(5) [OF assms(1)] by (simp add: load_fresh)
qed

lemma w_task_load_fresh:
  assumes "w_ok s" and "k < 3" and "v = SeqCstPadding \<or> i = 0"
  shows "fst (load (site_order v st) Cond i (task_view s ! k) (cond_h s)) = flag s"
proof -
  have "(task_view s ! k) Cond \<le> latest (cond_h s)" by (rule w_view_at(3) [OF assms(1,2)])
  moreover have "site_order v st = Seq_Cst \<or> i = 0" using assms(3) by (rule site_order_fresh)
  ultimately show ?thesis using w_ok_hists(5) [OF assms(1)] by (simp add: load_fresh)
qed

lemma w_cas_fresh:
  assumes "w_ok s" and "v = SeqCstPadding \<or> i = 0"
    and "cas_weak sp (site_order v S_CasOk) (site_order v S_CasFail) Cond i (finish_work s) True
           (main_view s) (cond_h s) = (ok, e', V', h')"
  shows "compare_exchange_weak sp (flag s) (finish_work s) True = (ok, last_val h', e')"
proof -
  have "main_view s Cond \<le> latest (cond_h s)" by (rule w_view_at(1) [OF assms(1)])
  moreover have "site_order v S_CasFail = Seq_Cst \<or> i = 0" using assms(2) by (rule site_order_fresh)
  ultimately have "(case cas_weak sp (site_order v S_CasOk) (site_order v S_CasFail) Cond i
                     (finish_work s) True (main_view s) (cond_h s) of
                     (ok, e', V', h') \<Rightarrow> (ok, last_val h', e')) =
                   compare_exchange_weak sp (last_val (cond_h s)) (finish_work s) True"
    by (rule cas_weak_fresh)
  then show ?thesis using assms(3) w_ok_hists(5) [OF assms(1)] by simp
qed

lemma truncate_ctor_mem [simp]: "sys.truncate (ctor_mem v k a s) = sys.truncate s"
  by (cases a) (simp_all add: sys.truncate_def split: prod.splits)

lemma w_main_step_refines:
  assumes "w_ok s" and "v = SeqCstPadding \<or> i = 0"
  shows "sys.truncate (w_main_step v sp i s) = main_step v sp (sys.truncate s)"
proof (cases "pc s")
  case (M_Ctor k j)
  then have "sys.truncate (w_main_step v sp i s) =
    sys.truncate (s\<lparr>objs := (objs s)[k := foo_ctor_step (seeds ! k) (ctor_order (variant_layout v) ! j)
                                 (objs s ! k)],
         pc := (if j < 2 then M_Ctor k (Suc j) else if k < 2 then M_Ctor (Suc k) 0 else M_Sleep1)\<rparr>)"
    by simp
  with M_Ctor show ?thesis by (simp add: sys.truncate_def)
next
  case M_Cas
  obtain ok fw' V' h' where c: "cas_weak sp (site_order v S_CasOk) (site_order v S_CasFail) Cond i
      (finish_work s) True (main_view s) (cond_h s) = (ok, fw', V', h')"
    by (cases "cas_weak sp (site_order v S_CasOk) (site_order v S_CasFail) Cond i
                 (finish_work s) True (main_view s) (cond_h s)") auto
  show ?thesis
    using M_Cas c w_cas_fresh [OF assms c] by (simp add: sys.truncate_def)
qed (use assms w_ok_hists [OF assms(1)] w_count_fresh [OF assms(1)] w_load_cond_fresh [OF assms]
     in \<open>simp_all add: sys.truncate_def case_prod_beta foo_count_def split: option.splits\<close>)

lemma w_task_step_refines:
  assumes "w_ok s" and "v = SeqCstPadding \<or> i = 0"
  shows "sys.truncate (w_task_step v k i s) = task_step k (sys.truncate s)"
  using assms w_ok_hists [OF assms(1)] w_task_load_fresh [OF assms(1) _ assms(2)]
  by (cases "m_thread (objs s ! k)")
     (simp_all add: w_task_step_def task_step_def sys.truncate_def case_prod_beta
                    do_thing_step.simps)

theorem w_step_refines:
  assumes "w_ok s" and "v = SeqCstPadding \<or> staleness e = 0"
  shows "sys.truncate (w_step v e s) = sys_step v (erase e) (sys.truncate s)"
  using assms by (cases e) (simp_all add: w_main_step_refines w_task_step_refines del: w_main_step.simps)

subsection \<open>Runs\<close>

lemma w_run_append: "w_run v (es @ fs) s = w_run v fs (w_run v es s)"
  by (induction es arbitrary: s) simp_all

lemma w_reach_run: "w_reach v s \<Longrightarrow> w_reach v (w_run v es s)"
  by (induction es arbitrary: s) (simp_all add: w_reach.step del: w_step.simps)

lemma w_run_refines:
  "w_ok s \<Longrightarrow> v = SeqCstPadding \<or> list_all (\<lambda>e. staleness e = 0) es \<Longrightarrow>
   sys.truncate (w_run v es s) = sys_run v (map erase es) (sys.truncate s)"
proof (induction es arbitrary: s)
  case Nil
  then show ?case by simp
next
  case (Cons e es)
  have "sys.truncate (w_step v e s) = sys_step v (erase e) (sys.truncate s)"
    using Cons.prems by (intro w_step_refines) auto
  moreover have "sys.truncate (w_run v es (w_step v e s)) =
                 sys_run v (map erase es) (sys.truncate (w_step v e s))"
    using Cons.prems by (intro Cons.IH w_ok_step) auto
  ultimately show ?case by (simp del: w_step.simps sys_step.simps)
qed

lemma truncate_init: "sys.truncate wsys_init = sys_init"
  by (simp add: sys.truncate_def wsys_init_def sys_init_def)

lemma w_run_padding:
  "sys.truncate (w_run SeqCstPadding es wsys_init) = sys_run SeqCstPadding (map erase es) sys_init"
  using w_run_refines [OF w_ok_init, of SeqCstPadding es] truncate_init by simp

lemma w_reach_padding: "w_reach SeqCstPadding s \<Longrightarrow> reach SeqCstPadding (sys.truncate s)"
proof (induction rule: w_reach.induct)
  case init
  then show ?case by (simp add: truncate_init reach.init)
next
  case (step s e)
  have "sys.truncate (w_step SeqCstPadding e s) = sys_step SeqCstPadding (erase e) (sys.truncate s)"
    using w_reach_ok [OF step.hyps] by (intro w_step_refines) simp_all
  then show ?case using reach.step [OF step.IH] by (simp del: w_step.simps sys_step.simps)
qed

lemma reach_w_reach: "reach v s \<Longrightarrow> \<exists>ws. w_reach v ws \<and> sys.truncate ws = s"
proof (induction rule: reach.induct)
  case init
  then show ?case using w_reach.init truncate_init by blast
next
  case (step s e)
  then obtain ws where ws: "w_reach v ws" "sys.truncate ws = s" by blast
  have "sys.truncate (w_step v (fresh_event e) ws) = sys_step v e s"
    using w_step_refines [OF w_reach_ok [OF ws(1)], of v "fresh_event e"] ws(2)
    by (cases e) (simp_all del: w_step.simps sys_step.simps)
  then show ?case using w_reach.step [OF ws(1)] by blast
qed

subsection \<open>Scenario B with a stale flag\<close>

lemma spin_step:
  assumes "spin_ok s"
  shows "spin_ok (w_run AcqRelMain [WTask 1 1, WTask 1 0] s) \<and>
         m_v (objs (w_run AcqRelMain [WTask 1 1, WTask 1 0] s) ! 1) = m_v (objs s ! 1) + 1 \<and>
         pc (w_run AcqRelMain [WTask 1 1, WTask 1 0] s) = pc s \<and>
         ckp2 (w_run AcqRelMain [WTask 1 1, WTask 1 0] s) = ckp2 s \<and>
         flag (w_run AcqRelMain [WTask 1 1, WTask 1 0] s) = flag s"
  using assms
  by (simp add: spin_ok_def w_task_step_def load_def read_ts_def latest_def rmw_def Let_def
                do_thing_step.simps nth_list_update case_prod_beta sup_fun_def bot_nat_def)

lemma spin_run:
  assumes "spin_ok s"
  shows "spin_ok (w_run AcqRelMain (spin n) s) \<and>
         m_v (objs (w_run AcqRelMain (spin n) s) ! 1) = m_v (objs s ! 1) + of_nat n \<and>
         pc (w_run AcqRelMain (spin n) s) = pc s \<and>
         ckp2 (w_run AcqRelMain (spin n) s) = ckp2 s \<and>
         flag (w_run AcqRelMain (spin n) s) = flag s"
  using assms
proof (induction n arbitrary: s)
  case 0
  then show ?case by (simp add: spin_def)
next
  case (Suc n)
  have e: "spin (Suc n) = [WTask 1 1, WTask 1 0] @ spin n" by (simp add: spin_def)
  note one = spin_step [OF Suc.prems]
  show ?case
    using Suc.IH [OF conjunct1 [OF one]] one
    unfolding e w_run_append by (simp add: ac_simps del: w_run.simps)
qed

lemma stop_prefix_run:
  "spin_ok (w_run AcqRelMain stop_prefix wsys_init) \<and> pc (w_run AcqRelMain stop_prefix wsys_init) = M_DoWork \<and>
   flag (w_run AcqRelMain stop_prefix wsys_init) \<and> ckp2 (w_run AcqRelMain stop_prefix wsys_init) = [10, 2, 3] \<and>
   m_v (objs (w_run AcqRelMain stop_prefix wsys_init) ! 1) = 2"
  by code_simp

lemma dowork_to_report:
  assumes "pc s = M_DoWork" and "length (ckp3 s) = 3" and "length (objs s) = 3"
  shows "pc (sys_run v (replicate 5 (Main False)) s) = M_Report \<and>
         flag (sys_run v (replicate 5 (Main False)) s) = flag s \<and>
         ckp2 (sys_run v (replicate 5 (Main False)) s) = ckp2 s \<and>
         ckp3 (sys_run v (replicate 5 (Main False)) s) ! 1 = m_v (objs s ! 1)"
  using assms by (simp add: numeral_eq_Suc foo_count_def nth_list_update)

end
