(* ===== verification/Coherence.thy ===== *)
theory Coherence
  imports WeakDriver
begin

text \<open>Coherence of the counters under the memory orders (both source files).  Each
  counter's modification order, from the seed store of the constructor body
  (\<^verbatim>\<open>m_v.store(i)\<close>) on, holds consecutive values, because every later
  write is a \<^verbatim>\<open>fetch_add(1)\<close>.  The main thread's loads of a counter
  (\<^verbatim>\<open>count()\<close>) never read a message older than one it has already read or
  written (read-read and write-read coherence, carried by its view), so the three
  samples it takes are positions \<open>t1 \<le> t2 \<le> t3\<close> of that order, and its own
  \<^verbatim>\<open>a.do_work()\<close> between \<^verbatim>\<open>ckp2\<close> and \<^verbatim>\<open>ckp3\<close> makes
  \<open>t2 < t3\<close> for \<^verbatim>\<open>a\<close>.  \<open>coh_obj\<close> is that invariant,
  \<open>w_reach_coh\<close> proves it of every execution, and
  \<open>counter_samples_monotone\<close> reads it as signed integers.\<close>

subsection \<open>Consecutive histories and the coherence invariant\<close>

definition consec :: "int32 hist \<Rightarrow> nat \<Rightarrow> bool" where
  "consec h j \<longleftrightarrow> j < length h \<and> (\<forall>t\<in>{j..<length h - 1}. fst (h ! Suc t) = fst (h ! t) + 1)"

definition coh_obj :: "wsys \<Rightarrow> nat \<Rightarrow> bool" where
  "coh_obj s k \<longleftrightarrow>
     (let h = ctr_h s ! k; V = main_view s (Ctr k); r = pc_rank (pc s) in
      3 * k + 3 \<le> r \<longrightarrow>
        (\<exists>j t1 t2 t3. consec h j \<and> fst (h ! j) = seeds ! k \<and> j \<le> V \<and>
          (11 + k \<le> r \<longrightarrow> j \<le> t1 \<and> t1 \<le> V \<and> fst (h ! t1) = ckp1 s ! k) \<and>
          (18 + k \<le> r \<longrightarrow> t1 \<le> t2 \<and> t2 \<le> V \<and> fst (h ! t2) = ckp2 s ! k \<and>
                              (k = 0 \<and> 21 \<le> r \<longrightarrow> t2 < V)) \<and>
          (23 + k \<le> r \<longrightarrow> t2 \<le> t3 \<and> t3 \<le> V \<and> fst (h ! t3) = ckp3 s ! k \<and>
                              (k = 0 \<longrightarrow> t2 < t3))))"

subsection \<open>Histories and views\<close>

lemma consec_snoc:
  "consec h j \<Longrightarrow> consec (h @ [(last_val h + 1, m)]) j"
proof -
  assume c: "consec h j"
  have "fst ((h @ [(last_val h + 1, m)]) ! Suc t) = fst ((h @ [(last_val h + 1, m)]) ! t) + 1"
    if "j \<le> t" "t < length h" for t
  proof (cases "Suc t < length h")
    case True
    then show ?thesis using c that by (simp add: consec_def nth_append)
  next
    case False
    then have e: "Suc t = length h" using that by simp
    have a: "(h @ [(last_val h + 1, m)]) ! Suc t = (last_val h + 1, m)" by (simp add: e)
    have b: "(h @ [(last_val h + 1, m)]) ! t = h ! t" using that(2) by (simp add: nth_append)
    have "latest h = t" using e by (simp add: latest_def)
    then have "last_val h = fst (h ! t)" by (simp add: last_val_def)
    then show ?thesis using a b by simp
  qed
  then show ?thesis using c by (simp add: consec_def)
qed

lemma consec_nth:
  assumes "consec h j" and "j \<le> t" and "t < length h"
  shows "fst (h ! t) = fst (h ! j) + of_nat (t - j)"
  using assms(2,3)
proof (induction t)
  case 0
  then show ?case by simp
next
  case (Suc t)
  show ?case
  proof (cases "j = Suc t")
    case True
    then show ?thesis by simp
  next
    case False
    then have "j \<le> t" using Suc.prems(1) by simp
    with Suc.prems(2) have IH: "fst (h ! t) = fst (h ! j) + of_nat (t - j)" by (intro Suc.IH) simp_all
    have "fst (h ! Suc t) = fst (h ! t) + 1"
      using assms(1) \<open>j \<le> t\<close> Suc.prems(2) by (auto simp: consec_def)
    with IH \<open>j \<le> t\<close> show ?thesis by (simp add: Suc_diff_le ac_simps)
  qed
qed

lemma consec_single: "consec (h @ [m]) (length h)"
  by (simp add: consec_def)


lemma load_view_mono:
  assumes "V x \<le> latest h"
  shows "V \<le> snd (load ord x i V h) \<and> read_ts ord x V h i \<le> snd (load ord x i V h) x"
proof -
  let ?t = "read_ts ord x V h i"
  have t: "V x \<le> ?t" using read_ts_bounds [of V x h ord i, OF assms] by simp
  have "V \<le> V(x := ?t)" using t by (simp add: le_fun_def)
  moreover have "snd (load ord x i V h) = (if is_acquire ord then sup (V(x := ?t)) (snd (h ! ?t))
                                           else V(x := ?t))"
    by (simp add: load_def Let_def split: prod.splits)
  ultimately show ?thesis using t by (auto simp: le_fun_def intro: le_supI1)
qed

lemma store_view_mono: "V x \<le> length h \<Longrightarrow> V \<le> fst (store ord x v V h)"
  by (simp add: store_def Let_def le_fun_def)

lemma rmw_view_mono: "V x \<le> length h \<Longrightarrow> V \<le> fst (snd (rmw ord x f V h))"
  by (auto simp: rmw_def Let_def le_fun_def split: prod.splits intro: le_supI1)

lemma cas_view_mono:
  assumes "V x \<le> latest h" and "cas_weak sp succ fail x i e d V h = (ok, e', V', h')"
  shows "V \<le> V'"
proof -
  have l: "V x \<le> length h" using assms(1) by (simp add: latest_def)
  show ?thesis using cas_weak_cases [OF assms(2)] rmw_view_mono [of V x h succ "\<lambda>_. d", OF l]
      load_view_mono [of V x h fail i, OF assms(1)]
    by (metis fst_conv snd_conv)
qed

lemma nth_snoc_prefix: "t < length h \<Longrightarrow> (h @ [m]) ! t = h ! t"
  by (simp add: nth_append)

text \<open>A step that crosses none of the thresholds, leaves the samples of \<open>k\<close>
  alone, does not shrink the main thread's view of the counter, and at most appends
  an increment to its history keeps the invariant.\<close>

lemma coh_persist:
  assumes c: "coh_obj s k" and vb: "main_view s (Ctr k) \<le> latest (ctr_h s ! k)"
    and ne: "ctr_h s ! k \<noteq> []"
    and h: "3 * k + 3 \<le> pc_rank (pc s') \<Longrightarrow>
            ctr_h s' ! k = ctr_h s ! k \<or>
            (\<exists>m. ctr_h s' ! k = ctr_h s ! k @ [(last_val (ctr_h s ! k) + 1, m)])"
    and V: "main_view s (Ctr k) \<le> main_view s' (Ctr k)"
    and ck: "ckp1 s' ! k = ckp1 s ! k" "ckp2 s' ! k = ckp2 s ! k" "ckp3 s' ! k = ckp3 s ! k"
    and r: "\<And>\<theta>. \<theta> \<in> {3 * k + 3, 11 + k, 18 + k, 23 + k} \<Longrightarrow>
              \<theta> \<le> pc_rank (pc s') \<Longrightarrow> \<theta> \<le> pc_rank (pc s)"
    and r21: "k = 0 \<Longrightarrow> 21 \<le> pc_rank (pc s') \<Longrightarrow>
              21 \<le> pc_rank (pc s) \<or> main_view s (Ctr k) < main_view s' (Ctr k)"
  shows "coh_obj s' k"
proof (cases "3 * k + 3 \<le> pc_rank (pc s')")
  case False
  then show ?thesis by (simp add: coh_obj_def Let_def)
next
  case True
  let ?h = "ctr_h s ! k" and ?V = "main_view s (Ctr k)"
  have r0: "3 * k + 3 \<le> pc_rank (pc s)" using r [of "3 * k + 3"] True by simp
  then obtain j t1 t2 t3 where
    inv: "consec ?h j" "fst (?h ! j) = seeds ! k" "j \<le> ?V"
      "11 + k \<le> pc_rank (pc s) \<Longrightarrow> j \<le> t1 \<and> t1 \<le> ?V \<and> fst (?h ! t1) = ckp1 s ! k"
      "18 + k \<le> pc_rank (pc s) \<Longrightarrow> t1 \<le> t2 \<and> t2 \<le> ?V \<and> fst (?h ! t2) = ckp2 s ! k \<and>
                                   (k = 0 \<and> 21 \<le> pc_rank (pc s) \<longrightarrow> t2 < ?V)"
      "23 + k \<le> pc_rank (pc s) \<Longrightarrow> t2 \<le> t3 \<and> t3 \<le> ?V \<and> fst (?h ! t3) = ckp3 s ! k \<and>
                                   (k = 0 \<longrightarrow> t2 < t3)"
    using c by (auto simp: coh_obj_def Let_def)
  have lt: "t < length ?h" if "t \<le> ?V" for t
    using that vb ne by (cases "ctr_h s ! k") (auto simp: latest_def)
  obtain xs where xs: "ctr_h s' ! k = ?h @ xs"
    and cx: "consec ?h j \<Longrightarrow> consec (ctr_h s' ! k) j"
    using h [OF True] consec_snoc [of ?h j] by (metis append_Nil2)
  have n: "ctr_h s' ! k ! t = ?h ! t" if "t \<le> ?V" for t
    using lt [OF that] xs by (simp add: nth_append)
  have V': "?V \<le> main_view s' (Ctr k)" by (rule V)
  have a1: "j \<le> t1 \<and> t1 \<le> main_view s' (Ctr k) \<and> fst (ctr_h s' ! k ! t1) = ckp1 s' ! k"
    if "11 + k \<le> pc_rank (pc s')"
  proof -
    have "11 + k \<le> pc_rank (pc s)" using r [of "11 + k"] that by simp
    then show ?thesis using inv(4) n V' ck(1) by auto
  qed
  have a2: "t1 \<le> t2 \<and> t2 \<le> main_view s' (Ctr k) \<and> fst (ctr_h s' ! k ! t2) = ckp2 s' ! k \<and>
            (k = 0 \<and> 21 \<le> pc_rank (pc s') \<longrightarrow> t2 < main_view s' (Ctr k))"
    if "18 + k \<le> pc_rank (pc s')"
  proof -
    have "18 + k \<le> pc_rank (pc s)" using r [of "18 + k"] that by simp
    moreover have "21 \<le> pc_rank (pc s) \<or> ?V < main_view s' (Ctr k)"
      if "k = 0 \<and> 21 \<le> pc_rank (pc s')" using r21 that by blast
    ultimately show ?thesis using inv(5) n V' ck(2) by fastforce
  qed
  have a3: "t2 \<le> t3 \<and> t3 \<le> main_view s' (Ctr k) \<and> fst (ctr_h s' ! k ! t3) = ckp3 s' ! k \<and>
            (k = 0 \<longrightarrow> t2 < t3)"
    if "23 + k \<le> pc_rank (pc s')"
  proof -
    have "23 + k \<le> pc_rank (pc s)" using r [of "23 + k"] that by simp
    then show ?thesis using inv(6) n V' ck(3) by auto
  qed
  have "consec (ctr_h s' ! k) j \<and> fst (ctr_h s' ! k ! j) = seeds ! k \<and> j \<le> main_view s' (Ctr k)"
    using cx [OF inv(1)] inv(2,3) n V' by simp
  with a1 a2 a3 show ?thesis unfolding coh_obj_def Let_def by blast
qed

lemma cas_view_mono_fst:
  "V x \<le> latest h \<Longrightarrow> V \<le> fst (snd (snd (cas_weak sp succ fail x i e d V h)))"
  using cas_view_mono [of V x h sp succ fail i e d] by (metis prod.collapse)

lemma w_main_view_mono:
  assumes "w_ok s"
  shows "main_view s \<le> main_view (w_main_step v sp i s)"
proof -
  note h = w_ok_hists [OF assms]
  have lc: "main_view s (Ctr k) \<le> length (ctr_h s ! k)" if "k < 3" for k
    using w_view_at(2) [OF assms that] by (simp add: latest_def)
  have m1: "main_view s \<le> snd (load ord (Ctr k) i' (main_view s) (ctr_h s ! k))"
    if "k < 3" for k ord i'
    using load_view_mono [of "main_view s" "Ctr k" "ctr_h s ! k" ord i', OF w_view_at(2) [OF assms that]]
    by simp
  have m2: "main_view s \<le> snd (load ord Cond i' (main_view s) (cond_h s))" for ord i'
    using load_view_mono [of "main_view s" Cond "cond_h s" ord i', OF w_view_at(1) [OF assms]]
    by simp
  have m3: "main_view s \<le> fst (snd (rmw ord (Ctr k) f (main_view s) (ctr_h s ! k)))"
    if "k < 3" for k ord f
    using rmw_view_mono [of "main_view s" "Ctr k" "ctr_h s ! k" ord f, OF lc [OF that]] .
  have m4: "main_view s \<le> fst (store ord (Ctr k) x (main_view s) (ctr_h s ! k))"
    if "k < 3" for k ord x
    using store_view_mono [of "main_view s" "Ctr k" "ctr_h s ! k" ord x, OF lc [OF that]] .
  have m5: "main_view s \<le> fst (snd (snd (cas_weak sp' succ fail Cond i' e d (main_view s) (cond_h s))))"
    for sp' succ fail i' e d
    using cas_view_mono_fst [of "main_view s" Cond "cond_h s", OF w_view_at(1) [OF assms]] .
  show ?thesis
  proof (cases "pc s")
    case (M_Ctor k j)
    have k: "k < 3" using h(8) M_Ctor by simp
    show ?thesis
      using M_Ctor m4 [OF k]
      by (cases "ctor_order (variant_layout v) ! j") (simp_all add: case_prod_beta)
  next
    case (M_Dtor k)
    then show ?thesis by (simp split: option.splits)
  qed (use h m1 m2 m3 m5 in \<open>simp_all add: case_prod_beta w_count_def\<close>)
qed

lemma rmw_incr_hist:
  "\<exists>m. snd (snd (rmw ord x (\<lambda>y. y + 1) V h)) = h @ [(last_val h + 1, m)]"
  using rmw_hist [of ord x "\<lambda>y. y + 1" V h] by blast

lemma w_task_hist:
  assumes "w_ok s"
  shows "ctr_h (w_task_step v k' i s) ! k = ctr_h s ! k \<or>
         (\<exists>m. ctr_h (w_task_step v k' i s) ! k = ctr_h s ! k @ [(last_val (ctr_h s ! k) + 1, m)])"
proof (cases "k' < length (objs s) \<and> m_thread (objs s ! k') = Work \<and> k' = k")
  case True
  then show ?thesis
    using rmw_incr_hist [of "site_order v S_FetchAdd" "Ctr k" "task_view s ! k" "ctr_h s ! k"]
          w_ok_hists [OF assms]
    by (auto simp: w_task_step_def case_prod_beta)
next
  case False
  then show ?thesis
    by (cases "m_thread (objs s ! k')")
       (auto simp: w_task_step_def case_prod_beta nth_list_update)
qed

lemma w_task_step_frame [simp]:
  "pc (w_task_step v k' i s) = pc s" "main_view (w_task_step v k' i s) = main_view s"
  "ckp1 (w_task_step v k' i s) = ckp1 s" "ckp2 (w_task_step v k' i s) = ckp2 s"
  "ckp3 (w_task_step v k' i s) = ckp3 s"
  by (simp_all add: w_task_step_def case_prod_beta split: task_pc.splits)

lemma coh_task_step:
  assumes "w_ok s" and "coh_obj s k" and "k < 3"
  shows "coh_obj (w_task_step v k' i s) k"
proof (rule coh_persist [OF assms(2) w_view_at(2) [OF assms(1,3)] w_ok_hists(4) [OF assms(1,3)]])
  show "ctr_h (w_task_step v k' i s) ! k = ctr_h s ! k \<or>
        (\<exists>m. ctr_h (w_task_step v k' i s) ! k = ctr_h s ! k @ [(last_val (ctr_h s ! k) + 1, m)])"
    by (rule w_task_hist [OF assms(1)])
qed simp_all

lemma w_count_read:
  assumes "w_ok s" and "k < 3" and "w_count v k i s = (c, V')"
  shows "\<exists>t. main_view s (Ctr k) \<le> t \<and> t \<le> V' (Ctr k) \<and> c = fst (ctr_h s ! k ! t) \<and>
             main_view s \<le> V'"
proof -
  let ?t = "read_ts (site_order v S_Count) (Ctr k) (main_view s) (ctr_h s ! k) i"
  have b: "main_view s (Ctr k) \<le> latest (ctr_h s ! k)" by (rule w_view_at(2) [OF assms(1,2)])
  have "main_view s (Ctr k) \<le> ?t" using read_ts_bounds [of "main_view s" "Ctr k" "ctr_h s ! k", OF b]
    by simp
  moreover have "main_view s \<le> V' \<and> ?t \<le> V' (Ctr k)"
    using load_view_mono [of "main_view s" "Ctr k" "ctr_h s ! k" "site_order v S_Count" i, OF b]
          assms(3) by (simp add: w_count_def)
  moreover have "c = fst (ctr_h s ! k ! ?t)"
    using load_fst [of "site_order v S_Count" "Ctr k" i "main_view s" "ctr_h s ! k"] assms(3)
    by (simp add: w_count_def)
  ultimately show ?thesis by blast
qed

lemma coh_obj_old:
  "coh_obj s k \<Longrightarrow> 3 * k + 3 \<le> pc_rank (pc s) \<Longrightarrow>
   \<exists>j t1 t2. consec (ctr_h s ! k) j \<and> fst (ctr_h s ! k ! j) = seeds ! k \<and> j \<le> main_view s (Ctr k) \<and>
     (11 + k \<le> pc_rank (pc s) \<longrightarrow> j \<le> t1 \<and> t1 \<le> main_view s (Ctr k) \<and> fst (ctr_h s ! k ! t1) = ckp1 s ! k) \<and>
     (18 + k \<le> pc_rank (pc s) \<longrightarrow> t1 \<le> t2 \<and> t2 \<le> main_view s (Ctr k) \<and>
        fst (ctr_h s ! k ! t2) = ckp2 s ! k \<and> (k = 0 \<and> 21 \<le> pc_rank (pc s) \<longrightarrow> t2 < main_view s (Ctr k)))"
  unfolding coh_obj_def Let_def by blast

lemma coh_ckp1:
  assumes "w_ok s" and "coh_obj s k" and "k < 3" and "pc s = M_Ckp1 k"
  shows "coh_obj (w_main_step v sp i s) k"
proof -
  obtain c V' where cv: "w_count v k i s = (c, V')" by (cases "w_count v k i s") auto
  obtain t where t: "main_view s (Ctr k) \<le> t" "t \<le> V' (Ctr k)" "c = fst (ctr_h s ! k ! t)"
    "main_view s \<le> V'" using w_count_read [OF assms(1,3) cv] by blast
  obtain j where j: "consec (ctr_h s ! k) j" "fst (ctr_h s ! k ! j) = seeds ! k"
      "j \<le> main_view s (Ctr k)"
    using coh_obj_old [OF assms(2)] assms(3,4) by auto
  have jV: "j \<le> V' (Ctr k)" using j(3) le_funD [OF t(4), of "Ctr k"] by simp
  show ?thesis
    unfolding coh_obj_def Let_def
    using assms(3,4) cv j jV t w_ok_hists(9) [OF assms(1)]
    by (intro impI exI [of _ j] exI [of _ t] exI [of _ 0]) auto
qed

lemma coh_ckp2:
  assumes "w_ok s" and "coh_obj s k" and "k < 3" and "pc s = M_Ckp2 k"
  shows "coh_obj (w_main_step v sp i s) k"
proof -
  obtain c V' where cv: "w_count v k i s = (c, V')" by (cases "w_count v k i s") auto
  obtain t where t: "main_view s (Ctr k) \<le> t" "t \<le> V' (Ctr k)" "c = fst (ctr_h s ! k ! t)"
    "main_view s \<le> V'" using w_count_read [OF assms(1,3) cv] by blast
  obtain j t1 where j: "consec (ctr_h s ! k) j" "fst (ctr_h s ! k ! j) = seeds ! k"
      "j \<le> main_view s (Ctr k)" "j \<le> t1" "t1 \<le> main_view s (Ctr k)" "fst (ctr_h s ! k ! t1) = ckp1 s ! k"
    using coh_obj_old [OF assms(2)] assms(3,4) by auto
  have mv: "main_view s (Ctr k) \<le> V' (Ctr k)" using le_funD [OF t(4), of "Ctr k"] .
  show ?thesis
    unfolding coh_obj_def Let_def
    using assms(3,4) cv j mv t w_ok_hists(10) [OF assms(1)]
    by (intro impI exI [of _ j] exI [of _ t1] exI [of _ t] exI [of _ 0]) auto
qed

lemma coh_ckp3:
  assumes "w_ok s" and "coh_obj s k" and "k < 3" and "pc s = M_Ckp3 k"
  shows "coh_obj (w_main_step v sp i s) k"
proof -
  obtain c V' where cv: "w_count v k i s = (c, V')" by (cases "w_count v k i s") auto
  obtain t where t: "main_view s (Ctr k) \<le> t" "t \<le> V' (Ctr k)" "c = fst (ctr_h s ! k ! t)"
    "main_view s \<le> V'" using w_count_read [OF assms(1,3) cv] by blast
  obtain j t1 t2 where j: "consec (ctr_h s ! k) j" "fst (ctr_h s ! k ! j) = seeds ! k"
      "j \<le> main_view s (Ctr k)" "j \<le> t1" "t1 \<le> main_view s (Ctr k)" "fst (ctr_h s ! k ! t1) = ckp1 s ! k"
      "t1 \<le> t2" "t2 \<le> main_view s (Ctr k)" "fst (ctr_h s ! k ! t2) = ckp2 s ! k"
      "k = 0 \<Longrightarrow> t2 < main_view s (Ctr k)"
    using coh_obj_old [OF assms(2)] assms(3,4) by auto
  have mv: "main_view s (Ctr k) \<le> V' (Ctr k)" using le_funD [OF t(4), of "Ctr k"] .
  show ?thesis
    unfolding coh_obj_def Let_def
    using assms(3,4) cv j mv t w_ok_hists(11) [OF assms(1)]
    by (intro impI exI [of _ j] exI [of _ t1] exI [of _ t2] exI [of _ t]) auto
qed

lemma ctor_mem_frame [simp]:
  "pc (ctor_mem v k a s) = pc s" "ckp1 (ctor_mem v k a s) = ckp1 s"
  "ckp2 (ctor_mem v k a s) = ckp2 s" "ckp3 (ctor_mem v k a s) = ckp3 s"
  "k' \<noteq> k \<Longrightarrow> ctr_h (ctor_mem v k a s) ! k' = ctr_h s ! k'"
  by (cases a; simp add: case_prod_beta)+

lemma ctor_order_last: "ctor_order l ! 2 = StoreSeed"
  by (cases l) simp_all

lemma coh_ctor_done:
  assumes "w_ok s" and "k < 3" and "pc s = M_Ctor k 2"
  shows "coh_obj (w_main_step v sp i s) k"
proof -
  let ?h = "ctr_h s ! k"
  obtain V' h' where st: "store (site_order v S_Store) (Ctr k) (seeds ! k) (main_view s) ?h = (V', h')"
    by (cases "store (site_order v S_Store) (Ctr k) (seeds ! k) (main_view s) ?h") auto
  have r: "h' = ?h @ [(seeds ! k, snd (h' ! length ?h))]" "V' = (main_view s)(Ctr k := length ?h)"
    using store_hist [of "site_order v S_Store" "Ctr k" "seeds ! k" "main_view s" ?h]
          store_fst [of "site_order v S_Store" "Ctr k" "seeds ! k" "main_view s" ?h] st by simp_all
  have s': "ctr_h (w_main_step v sp i s) ! k = h'" "main_view (w_main_step v sp i s) = V'"
    "pc (w_main_step v sp i s) = (if k < 2 then M_Ctor (Suc k) 0 else M_Sleep1)"
    using assms(2,3) st w_ok_hists(2) [OF assms(1)] by (simp_all add: ctor_order_last)
  have c: "consec h' (length ?h)" by (subst r(1)) (rule consec_single)
  have f: "fst (h' ! length ?h) = seeds ! k" by (subst r(1)) simp
  show ?thesis
    unfolding coh_obj_def Let_def s' using assms(2) c f r(2)
    by (intro impI exI [of _ "length ?h"] exI [of _ 0]) auto
qed

lemma coh_main_step:
  assumes ok: "w_ok s" and c: "coh_obj s k" and k: "k < 3"
  shows "coh_obj (w_main_step v sp i s) k"
proof -
  note h = w_ok_hists [OF ok]
  let ?s' = "w_main_step v sp i s"
  have mono: "main_view s (Ctr k) \<le> main_view ?s' (Ctr k)"
    using le_funD [OF w_main_view_mono [OF ok]] .
  note P = coh_persist [OF c w_view_at(2) [OF ok k] h(4) [OF k] _ mono]
  show ?thesis
  proof (cases "pc s")
    case (M_Ctor k' j')
    have kj: "k' < 3" "j' < 3" using h(8) M_Ctor by simp_all
    show ?thesis
    proof (cases "k' = k \<and> j' = 2")
      case True
      then show ?thesis using coh_ctor_done [OF ok k] M_Ctor by simp
    next
      case False
      have pc': "pc ?s' = (if j' < 2 then M_Ctor k' (Suc j') else if k' < 2 then M_Ctor (Suc k') 0
                           else M_Sleep1)"
        using M_Ctor by simp
      have hk: "ctr_h ?s' ! k = ctr_h s ! k" if "3 * k + 3 \<le> pc_rank (pc ?s')"
      proof -
        have "k' \<noteq> k" using that False kj pc' by (auto split: if_splits)
        then show ?thesis using M_Ctor by simp
      qed
      have ar: "3 * k + 3 \<le> 3 * k' + j'" if "Suc (Suc (3 * k)) \<le> 3 * k' + j'" "j' < 2"
        using that by presburger
      show ?thesis
        by (rule P) (use M_Ctor hk pc' False kj ar in \<open>auto split: if_splits\<close>)
    qed
  next
    case (M_Ckp1 k')
    show ?thesis
    proof (cases "k' = k")
      case True
      then show ?thesis using coh_ckp1 [OF ok c k] M_Ckp1 by simp
    next
      case False
      then show ?thesis
        by (intro P) (use M_Ckp1 h(8) k in \<open>auto simp: case_prod_beta w_count_def split: if_splits\<close>)
    qed
  next
    case (M_Ckp2 k')
    show ?thesis
    proof (cases "k' = k")
      case True
      then show ?thesis using coh_ckp2 [OF ok c k] M_Ckp2 by simp
    next
      case False
      then show ?thesis
        by (intro P) (use M_Ckp2 h(8) k in \<open>auto simp: case_prod_beta w_count_def split: if_splits\<close>)
    qed
  next
    case (M_Ckp3 k')
    show ?thesis
    proof (cases "k' = k")
      case True
      then show ?thesis using coh_ckp3 [OF ok c k] M_Ckp3 by simp
    next
      case False
      then show ?thesis
        by (intro P) (use M_Ckp3 h(8) k in \<open>auto simp: case_prod_beta w_count_def split: if_splits\<close>)
    qed
  next
    case M_DoWork
    obtain a V' h' where r: "rmw (site_order v S_FetchAdd) (Ctr 0) (\<lambda>x. x + 1) (main_view s)
                              (ctr_h s ! 0) = (a, V', h')"
      by (cases "rmw (site_order v S_FetchAdd) (Ctr 0) (\<lambda>x. x + 1) (main_view s) (ctr_h s ! 0)")
         auto
    have inc: "\<exists>m. h' = ctr_h s ! 0 @ [(last_val (ctr_h s ! 0) + 1, m)]"
      using rmw_incr_hist [of "site_order v S_FetchAdd" "Ctr 0" "main_view s" "ctr_h s ! 0"] r
      by simp
    have V0: "V' (Ctr 0) = length (ctr_h s ! 0)"
      using rmw_view_at [of "site_order v S_FetchAdd" "Ctr 0" "\<lambda>x. x + 1" "main_view s"
                            "ctr_h s ! 0"] r by simp
    have lt: "main_view s (Ctr 0) < length (ctr_h s ! 0)"
      using w_view_at(2) [OF ok, of 0] h(4) [of 0] by (cases "ctr_h s ! 0") (auto simp: latest_def)
    show ?thesis
      by (intro P) (use M_DoWork r inc V0 lt h k in \<open>auto simp: nth_list_update\<close>)
  next
    case M_Cas
    then show ?thesis
      by (intro P) (use k in \<open>auto simp: case_prod_beta split: if_splits\<close>)
  next
    case (M_Dtor k')
    then show ?thesis
      by (intro P) (use k h(8) in \<open>auto split: option.splits\<close>)
  qed (rule P; use k in \<open>auto simp: case_prod_beta w_count_def split: if_splits\<close>)+
qed


subsection \<open>The invariant holds in every execution\<close>

lemma coh_init: "coh_obj wsys_init k"
  by (simp add: coh_obj_def wsys_init_def sys_init_def)

lemma w_reach_coh: "w_reach v s \<Longrightarrow> k < 3 \<Longrightarrow> coh_obj s k"
proof (induction rule: w_reach.induct)
  case init
  show ?case by (rule coh_init)
next
  case (step s e)
  then show ?case
    using coh_main_step [OF w_reach_ok [OF step.hyps(1)]] coh_task_step [OF w_reach_ok [OF step.hyps(1)]]
    by (cases e) (simp_all del: w_main_step.simps)
qed

lemma w_main_hist_len:
  assumes ok: "w_ok s" and k: "k < 3"
  shows "length (ctr_h (w_main_step v sp i s) ! k) \<le> Suc (length (ctr_h s ! k))"
proof (cases "pc s")
  case (M_Ctor k' j)
  have "k' < 3" using w_ok_hists(8) [OF ok] M_Ctor by simp
  then show ?thesis
    using M_Ctor w_ok_hists(2) [OF ok]
    by (cases "ctor_order (variant_layout v) ! j")
       (auto simp: case_prod_beta nth_list_update store_def Let_def)
next
  case M_DoWork
  then show ?thesis
    using w_ok_hists(2) [OF ok] by (auto simp: case_prod_beta nth_list_update rmw_def Let_def)
qed (auto simp: case_prod_beta w_count_def split: if_splits option.splits)

lemma w_step_hist_len:
  "w_ok s \<Longrightarrow> k < 3 \<Longrightarrow> length (ctr_h (w_step v e s) ! k) \<le> Suc (length (ctr_h s ! k))"
proof (cases e)
  case (WTask k' i)
  assume "w_ok s"
  then have "ctr_h (w_task_step v k' i s) ! k = ctr_h s ! k \<or>
        (\<exists>m. ctr_h (w_task_step v k' i s) ! k = ctr_h s ! k @ [(last_val (ctr_h s ! k) + 1, m)])"
    by (rule w_task_hist)
  then show ?thesis using WTask by auto
qed (simp add: w_main_hist_len del: w_main_step.simps)

lemma w_run_hist_len:
  "w_ok s \<Longrightarrow> k < 3 \<Longrightarrow> length (ctr_h (w_run v es s) ! k) \<le> length (ctr_h s ! k) + length es"
proof (induction es arbitrary: s)
  case Nil
  then show ?case by simp
next
  case (Cons e es)
  have "length (ctr_h (w_run v es (w_step v e s)) ! k) \<le> length (ctr_h (w_step v e s) ! k) + length es"
    using Cons.IH [OF w_ok_step [OF Cons.prems(1)] Cons.prems(2)] .
  then show ?case using w_step_hist_len [OF Cons.prems, of v e] by (simp del: w_step.simps)
qed

lemma seeds_sint: "k < 3 \<Longrightarrow> 1 \<le> sint (seeds ! k) \<and> sint (seeds ! k) \<le> 3"
  by (auto simp: seeds_def less_Suc_eq numeral_eq_Suc)

lemma consec_sint:
  assumes "consec h j" and "j \<le> t" and "t < length h" and "length h \<le> 2147483644"
    and "1 \<le> sint (fst (h ! j))" and "sint (fst (h ! j)) \<le> 3"
  shows "sint (fst (h ! t)) = sint (fst (h ! j)) + int (t - j)"
proof -
  have "sint (fst (h ! j)) + int (t - j) \<le> 2147483647" using assms(3-6) by linarith
  then show ?thesis using consec_nth [OF assms(1-3)] sint_add_of_nat_no_overflow by simp
qed

text \<open>C4: In both source files, under their memory orders, the three samples the main
  thread takes of a counter never go down: when it reaches the report,
  \<^verbatim>\<open>ckp1 \<le> ckp2 \<le> ckp3\<close> as signed integers, and \<^verbatim>\<open>ckp2.a < ckp3.a\<close>
  because of its own \<^verbatim>\<open>a.do_work()\<close>.  The hypothesis on the length of the
  counter's history (fewer than \<open>2^31 - 4\<close> writes) excludes the wrap-around of
  \<^verbatim>\<open>fetch_add\<close> at \<^verbatim>\<open>INT_MAX\<close>.\<close>

theorem counter_samples_monotone:
  assumes "w_reach v s" and "pc s = M_Report" and "k < 3"
    and "length (ctr_h s ! k) \<le> 2147483644"
  shows "sint (ckp1 s ! k) \<le> sint (ckp2 s ! k) \<and> sint (ckp2 s ! k) \<le> sint (ckp3 s ! k) \<and>
         (k = 0 \<longrightarrow> sint (ckp2 s ! 0) < sint (ckp3 s ! 0))"
proof -
  let ?h = "ctr_h s ! k"
  have ok: "w_ok s" using assms(1) by (rule w_reach_ok)
  obtain j t1 t2 t3 where c: "consec ?h j" "fst (?h ! j) = seeds ! k" "j \<le> t1" "t1 \<le> t2" "t2 \<le> t3"
      "t3 \<le> main_view s (Ctr k)" "fst (?h ! t1) = ckp1 s ! k" "fst (?h ! t2) = ckp2 s ! k"
      "fst (?h ! t3) = ckp3 s ! k" "k = 0 \<Longrightarrow> t2 < t3"
    using w_reach_coh [OF assms(1,3)] assms(2,3) unfolding coh_obj_def Let_def by auto
  have lt: "t3 < length ?h"
    using c(6) w_view_at(2) [OF ok assms(3)] w_ok_hists(4) [OF ok assms(3)]
    by (cases ?h) (auto simp: latest_def)
  note sj = seeds_sint [OF assms(3)]
  have e: "sint (fst (?h ! t)) = sint (seeds ! k) + int (t - j)" if "j \<le> t" "t \<le> t3" for t
    using consec_sint [OF c(1) that(1) _ assms(4)] that lt sj c(2) by simp
  show ?thesis
    using e [of t1] e [of t2] e [of t3] c lt by auto
qed

theorem counter_samples_monotone_witness:
  "sint (ckp2 (w_run SeqCstPadding (stale_b_sched 2) wsys_init) ! 0) <
   sint (ckp3 (w_run SeqCstPadding (stale_b_sched 2) wsys_init) ! 0)"
proof -
  let ?s = "w_run SeqCstPadding (stale_b_sched 2) wsys_init"
  let ?t = "sys_run SeqCstPadding (map erase (stale_b_sched 2)) sys_init"
  have r: "w_reach SeqCstPadding ?s" by (intro w_reach_run w_reach.init)
  have t: "pc ?t = M_Report"
    by (simp add: stale_b_sched_def stop_prefix_def spin_def sys_init_def seeds_def foo_raw_def
                  task_step_def foo_do_work_def foo_count_def compare_exchange_weak_def
                  do_thing_step.simps numeral_eq_Suc)
  then have p: "pc ?s = M_Report"
    using w_run_padding [of "stale_b_sched 2"] by (metis truncate_fields)
  have "length (ctr_h ?s ! 0) \<le> length (ctr_h wsys_init ! 0) + length (stale_b_sched 2)"
    by (rule w_run_hist_len [OF w_ok_init]) simp
  moreover have "length (ctr_h wsys_init ! 0) + length (stale_b_sched 2) = 49"
    by (simp add: wsys_init_def stale_b_sched_def stop_prefix_def spin_def numeral_eq_Suc)
  ultimately have l: "length (ctr_h ?s ! 0) \<le> 2147483644" by linarith
  show ?thesis using counter_samples_monotone [OF r p _ l] by simp
qed

end
