(* ===== verification/Spec2Isabelle.thy ===== *)
theory Spec2Isabelle
  imports Coherence
begin

text \<open>
  \<^bold>\<open>A verification development of phniix/atomic_conditional.\<close>

  \<^emph>\<open>The program.\<close>  Two near-identical C++ files, \<^verbatim>\<open>src/main.cpp\<close> and
  \<^verbatim>\<open>src/main_seqcst_padding.cpp\<close>.  Each defines a worker class \<^verbatim>\<open>Foo\<close>
  (an atomic counter \<^verbatim>\<open>m_v\<close>, a \<^verbatim>\<open>std::thread\<close> running
  \<^verbatim>\<open>do_thing\<close>, \<^verbatim>\<open>do_work()\<close> = \<^verbatim>\<open>fetch_add(1)\<close>,
  \<^verbatim>\<open>count()\<close> = load, a destructor that joins), a static stop flag
  \<^verbatim>\<open>Foo::m_cond\<close> that every \<^verbatim>\<open>do_thing\<close> loop polls, and a driver
  \<^verbatim>\<open>main\<close> that builds three workers \<^verbatim>\<open>a\<close>, \<^verbatim>\<open>b\<close>, \<^verbatim>\<open>c\<close>
  (seeds 1, 2, 3), samples their counts, polls \<^verbatim>\<open>a\<close> until a threshold, sets the
  flag with a \<^verbatim>\<open>compare_exchange_weak\<close> retry loop that counts spurious
  failures, samples again, calls \<^verbatim>\<open>a.do_work()\<close> once more, samples a third
  time, prints three comparisons and returns (joining \<^verbatim>\<open>c\<close>, \<^verbatim>\<open>b\<close>,
  \<^verbatim>\<open>a\<close>).  The files differ in the member order of \<^verbatim>\<open>Foo\<close>, in the
  threshold (\<^verbatim>\<open>>= 10\<close> against \<^verbatim>\<open>> 1\<close>) and in the memory orderings.

  \<^emph>\<open>Theories.\<close>
  \<^item> \<open>Prelude\<close>: \<open>int32 = 32 word\<close> for C++ \<^verbatim>\<open>int\<close>, signed successor and
    wrap-around lemmas, counting in updated lists, facts about the three workers.
  \<^item> \<open>Atomic\<close>: \<open>fetch_add\<close> and \<open>compare_exchange_weak\<close> as single atomic
    steps; a weak CAS takes its spurious failure as an explicit argument.
  \<^item> \<open>Worker\<close>: \<^verbatim>\<open>Foo\<close> as the record \<open>foo\<close>; \<open>foo_do_work\<close>,
    \<open>foo_count\<close>, the constructor's actions \<open>foo_ctor_step\<close> in the order
    \<open>ctor_order\<close> the member layout imposes, \<open>foo_dtor\<close> (\<open>None\<close> = the
    \<^verbatim>\<open>join\<close> blocks), \<open>do_thing_step\<close> (one atomic step of the worker
    thread) and \<open>do_thing_loop\<close> (the whole loop, a \<^theory_text>\<open>partial_function
    (option)\<close> over the sequence of flag values its tests read).
  \<^item> \<open>StopFlag\<close>: lines 106--115 of \<^verbatim>\<open>main\<close>.  \<open>try_stop\<close>/\<open>cas_retry_loop\<close>
    run it in one thread over a stream of spurious-failure choices; \<open>stop_sys\<close>,
    \<open>caller_step\<close>, \<open>stop_step\<close> and \<open>stop_reach\<close> run it in any number of
    interleaved threads, as the specification's \<open>try_stop\<close> contract demands.
  \<^item> \<open>Driver\<close>: the whole program: \<open>main_step\<close> is \<^verbatim>\<open>main\<close> as a
    program-point machine (\<open>main_pc\<close>, one constructor per source statement),
    \<open>task_step\<close> a step of one worker, \<open>sys_step\<close>/\<open>reach\<close> the
    interleavings; the variant (\<open>AcqRelMain\<close> = \<^verbatim>\<open>main.cpp\<close>,
    \<open>SeqCstPadding\<close> = the other file) fixes the layout and the threshold.
    Invariants: \<open>inv_shape\<close>, \<open>inv_flag\<close> (the flag is set only by the
    stop and is set past it), \<open>inv_ckp\<close> (after \<open>ckp2\<close> each worker is within
    one pending increment of its sample), \<open>inv_built\<close> (construction
    progress), \<open>inv_safe\<close> (no access before initialisation, padded variant),
    \<open>ctor_phase\<close> (no counter is alive before its initialiser has run),
    \<open>inv_join\<close> (a thread is joinable exactly while it may still run).
    The interleaving reading is exact for \<^verbatim>\<open>main_seqcst_padding.cpp\<close> only;
    for \<^verbatim>\<open>main.cpp\<close> it is the set of executions whose loads read the latest
    message.
  \<^item> \<open>Memory\<close>: the memory orders.  A view-based operational reading of
    \<^verbatim>\<open>relaxed\<close>/\<^verbatim>\<open>acquire\<close>/\<^verbatim>\<open>release\<close>/\<^verbatim>\<open>seq_cst\<close>: each
    location keeps the list of messages written to it (its modification order),
    each thread a view; \<open>load\<close> reads a message at or after the view, chosen by a
    staleness argument, \<open>store\<close>, \<open>rmw\<close> (\<^verbatim>\<open>fetch_add\<close>) and
    \<open>cas_weak\<close> append.
  \<^item> \<open>WeakDriver\<close>: the program of \<open>Driver\<close> over that memory.  \<open>wsys\<close>
    extends \<open>sys\<close> with the histories of \<^verbatim>\<open>m_cond\<close> and of the three
    counters and the four threads' views; \<open>site_order\<close> gives each access the
    order its source line asks for; \<open>w_main_step\<close>, \<open>w_task_step\<close>,
    \<open>w_reach\<close> mirror \<open>main_step\<close>, \<open>task_step\<close>, \<open>reach\<close>.  Invariant
    \<open>w_ok\<close>: histories non-empty, the \<open>sys\<close> fields hold the latest values,
    all views below the latest positions.  \<open>w_step_refines\<close>: a step whose load
    reads the latest message (every step, for the \<^verbatim>\<open>seq_cst\<close> file) projects
    by \<open>sys.truncate\<close> onto the interleaving step.
  \<^item> \<open>Coherence\<close>: the modification order of each counter holds consecutive
    values from its seed store on (\<open>consec\<close>); \<open>coh_obj\<close> places the main
    thread's samples at positions \<open>t1 \<le> t2 \<le> t3\<close> of it, below its view
    (read-read and write-read coherence), and \<open>w_reach_coh\<close> proves that for every
    execution of either file.
  \<^item> this theory: the end-to-end properties.

  \<^emph>\<open>What is proved.\<close>  Stop flag: at most one winner in every interleaving,
  exactly one when all callers are done, the flag never reverts, progress of all
  callers, termination and refinement of the one-thread sequence against the
  specification's contract, divergence exactly under perpetual spurious failure.
  Worker: \<open>do_work\<close> refines \<open>advance\<close> except at \<open>INT_MAX\<close>, \<open>k\<close>
  advances give \<open>seed + k\<close>, the loop returns exactly when a test reads the flag
  set.  Program, for each file under its own memory orders:
  \<^item> \<^verbatim>\<open>main_seqcst_padding.cpp\<close> has exactly the reachable states of the
    interleaving model, so its scenario-B bounds (at most one increment per worker
    after the stop), the termination of its workers and of \<^verbatim>\<open>main\<close> after the
    stop, and the absence of uninitialised access are proved of it under its orders;
  \<^item> in \<^verbatim>\<open>main.cpp\<close> a worker may go on incrementing for any number of
    iterations after the stop, because its acquire load of the flag is not ordered
    after the main thread's release CAS; so the interleaving-model bounds and the
    termination after the stop are claimed for the padded file only;
  \<^item> in both files the main thread's three samples of each counter never go down
    (\<open>Coherence\<close>: coherence of the counters' modification orders);
  \<^item> in \<^verbatim>\<open>main.cpp\<close>, whenever a thread has been started and its counter not
    yet initialised, two steps of that thread touch the uninitialised counter;
  \<^item> at the end of \<^verbatim>\<open>main\<close> every thread has returned and been joined; after
    construction every step adds zero or one to each counter.
  Findings come with a theorem each: the construction race above; the seed store
  discards early increments, the printed scenario-B check can be false, and a late
  caller's CAS also succeeds (the last three shown on one run each, as evidence);
  \<^verbatim>\<open>fetch_add\<close> wraps.

  \<^emph>\<open>Bounds and schedules.\<close>  A run is a list of \<open>event\<close>s; the concrete
  schedules in this theory are witnesses.  After the stop two steps per worker and
  thirteen main steps suffice (\<open>stop_dist\<close> counts them), so no fuel is needed
  there; the two loops that may spin for ever (\<^verbatim>\<open>do_thing\<close> and the CAS retry
  loop) are partial functions whose non-termination is characterised exactly.

  The memory model has no fuel either: the staleness of each load is part of the
  schedule, and the unbounded post-stop run of \<^verbatim>\<open>main.cpp\<close> is the schedule
  \<open>stale_b_sched n\<close> for each \<open>n\<close>.

  \<^emph>\<open>Not modelled.\<close>  Console output and the sleeps (I/O and timing: a sleep is a
  step that lets the workers run); the C++ memory model is read through the
  operational view machine of \<open>Memory\<close>, not derived from the axiomatic
  definition of the standard, and its non-normative progress recommendation (stores
  become visible ``in a finite period of time'') is not assumed; the padding bytes
  (layout only); overflow of the \<^verbatim>\<open>int spurious\<close> counter (kept unbounded);
  platform failure to start a thread.
\<close>

subsection \<open>End-to-end scenario B\<close>

text \<open>Schedules of the whole program (main thread and the three workers) that
  follow the specification's scenario B: \<^verbatim>\<open>a\<close>'s thread counts up to the
  threshold, \<^verbatim>\<open>b\<close>'s thread loads the flag clear, the main thread stops the
  system and samples \<^verbatim>\<open>ckp2\<close>, and only then \<^verbatim>\<open>b\<close>'s thread completes the
  \<^verbatim>\<open>do_work()\<close> it had already decided on.\<close>

fun scenario_b_sched :: "variant \<Rightarrow> event list" where
  "scenario_b_sched AcqRelMain =
     replicate 13 (Main False) @ replicate 18 (Task 0) @ [Task 1] @ replicate 10 (Main False) @
     [Task 1] @ replicate 4 (Main False) @ [Task 0, Task 1, Task 2] @ replicate 3 (Main False)"
| "scenario_b_sched SeqCstPadding =
     replicate 13 (Main False) @ [Task 0, Task 0, Task 1] @ replicate 10 (Main False) @
     [Task 1] @ replicate 4 (Main False) @ [Task 0, Task 1, Task 2] @ replicate 3 (Main False)"

text \<open>Evidence for the scenario-B finding: the check the program prints for
  scenario B can fail in both variants (every interleaving is also an execution of
  the memory model, \<open>reach_w_reach\<close>).  Under the schedules above the program runs to its end and prints
  \<^verbatim>\<open>(b): false\<close>, because \<^verbatim>\<open>b\<close>'s thread completes one
  \<^verbatim>\<open>do_work()\<close> after \<^verbatim>\<open>ckp2\<close> was sampled.\<close>

theorem scenario_b_check_can_fail:
  "report (sys_run v (scenario_b_sched v) sys_init) = [True, False, True] \<and>
   pc (sys_run v (scenario_b_sched v) sys_init) = M_Exit"
  by (cases v)
     (simp_all add: sys_init_def seeds_def foo_raw_def task_step_def foo_do_work_def
                    foo_count_def foo_dtor_def compare_exchange_weak_def do_thing_step.simps
                    numeral_eq_Suc)

subsection \<open>Construction of the workers\<close>

text \<open>C8: In \<^verbatim>\<open>main.cpp\<close> the member \<^verbatim>\<open>m_thread\<close> is declared before
  \<^verbatim>\<open>m_v\<close>, so every constructor starts \<^verbatim>\<open>do_thing\<close> before
  \<^verbatim>\<open>m_v\<close> is initialised.  Whenever the main thread is between the two (any
  object, any schedule so far), two steps of that object's thread load the clear flag
  and call \<^verbatim>\<open>fetch_add\<close> on the counter whose lifetime has not begun.\<close>

theorem acqrel_spawned_thread_races_counter_init:
  assumes "reach AcqRelMain s" and "pc s = M_Ctor k 1" and "k < 3"
  shows "uninit_access (objs (sys_run AcqRelMain [Task k, Task k] s) ! k)"
proof -
  have inv: "sys_inv s" by (rule reach_sys_inv [OF assms(1)])
  have len: "length (objs s) = 3" using inv by (simp add: sys_inv_def inv_shape_def)
  have nf: "\<not> flag s" using inv assms(2,3) by (auto simp: sys_inv_def inv_flag_def)
  have cp: "ctor_phase AcqRelMain s k" by (rule reach_ctor_phase [OF assms(1,3)])
  then have "\<forall>j<3. ctor_order (variant_layout AcqRelMain) ! j = InitCounter \<longrightarrow>
               pc_rank (pc s) \<le> 3 * k + j \<longrightarrow> \<not> m_v_live (objs s ! k)"
    by (simp add: ctor_phase_def)
  then have dead: "\<not> m_v_live (objs s ! k)" using assms(2) by (drule_tac spec [where x = 1]) simp
  have fin: "m_thread (objs s ! k) \<noteq> Finished" using cp assms(2,3) by (simp add: ctor_phase_def)
  have "built AcqRelMain s k" using reach_inv_built [OF assms(1)] assms(3) by (simp add: inv_built_def)
  then have st: "m_thread (objs s ! k) \<noteq> NotStarted" using assms(2) by (simp add: built_def)
  show ?thesis using nf dead st fin len assms(3)
    by (cases "m_thread (objs s ! k)") (simp_all add: task_step_def foo_do_work_def)
qed

theorem acqrel_spawned_thread_races_counter_init_witness:
  "uninit_access (objs (sys_run AcqRelMain [Task 2, Task 2]
                    (sys_run AcqRelMain (replicate 7 (Main False) @ [Task 0]) sys_init)) ! 2)"
proof -
  let ?s = "sys_run AcqRelMain (replicate 7 (Main False) @ [Task 0]) sys_init"
  have r: "reach AcqRelMain ?s" by (rule reach_run [OF reach.init])
  have p: "pc ?s = M_Ctor 2 1"
    by (simp add: sys_init_def seeds_def foo_raw_def task_step_def numeral_eq_Suc)
  show ?thesis by (rule acqrel_spawned_thread_races_counter_init [OF r p]) simp
qed

text \<open>Evidence for the constructor finding: in both variants the constructor body
  \<^verbatim>\<open>m_v.store(i)\<close> runs after the thread is started, so increments the thread makes before it are lost and the
  counter can go down: in \<^verbatim>\<open>main_seqcst_padding.cpp\<close> \<^verbatim>\<open>a\<close>'s thread
  counts to 2 and the store of the seed 1 sets it back to 1.\<close>

theorem ctor_store_discards_increments:
  "foo_count (objs (sys_run SeqCstPadding (replicate 2 (Main False) @ replicate 4 (Task 0))
                      sys_init) ! 0) = 2 \<and>
   foo_count (objs (sys_run SeqCstPadding (replicate 2 (Main False) @ replicate 4 (Task 0) @
                      [Main False]) sys_init) ! 0) = 1"
  by (simp add: sys_init_def seeds_def foo_raw_def task_step_def foo_do_work_def foo_count_def
                do_thing_step.simps numeral_eq_Suc)

subsection \<open>Termination after the stop\<close>

text \<open>C11: In \<^verbatim>\<open>main_seqcst_padding.cpp\<close>, under its memory orders, once the
  stop flag is set two steps of a worker's thread take it out of
  \<^verbatim>\<open>do_thing\<close>, whatever message each of its loads could read, with at most
  one more increment of its counter (the one it had already decided on).  For
  \<^verbatim>\<open>main.cpp\<close> this fails under its acquire load (subsection on the memory orders).\<close>

theorem padding_worker_stops_after_flag:
  assumes "w_reach SeqCstPadding s" and "flag s" and "k < 3"
  shows "m_thread (objs (w_run SeqCstPadding [WTask k i, WTask k j] s) ! k) = Finished \<and>
         (m_v (objs (w_run SeqCstPadding [WTask k i, WTask k j] s) ! k) = m_v (objs s ! k) \<or>
          m_v (objs (w_run SeqCstPadding [WTask k i, WTask k j] s) ! k) = m_v (objs s ! k) + 1)"
proof -
  have r: "reach SeqCstPadding (sys.truncate s)" by (rule w_reach_padding [OF assms(1)])
  have "sys.truncate (w_run SeqCstPadding [WTask k i, WTask k j] s) =
        sys_run SeqCstPadding [Task k, Task k] (sys.truncate s)"
    using w_run_refines [OF w_reach_ok [OF assms(1)], of SeqCstPadding "[WTask k i, WTask k j]"]
    by simp
  then have "objs (w_run SeqCstPadding [WTask k i, WTask k j] s) =
             objs (sys_run SeqCstPadding [Task k, Task k] (sys.truncate s))"
    by (metis truncate_fields(2))
  then show ?thesis using task_pair_stops [OF r _ assms(3)] assms(2) by simp
qed

theorem padding_worker_stops_after_flag_witness:
  "m_thread (objs (w_run SeqCstPadding [WTask 1 1, WTask 1 1]
                     (w_run SeqCstPadding stop_prefix wsys_init)) ! 1) = Finished"
proof -
  let ?s = "w_run SeqCstPadding stop_prefix wsys_init"
  have r: "w_reach SeqCstPadding ?s" by (intro w_reach_run w_reach.init)
  have "flag (sys_run SeqCstPadding (map erase stop_prefix) sys_init)"
    by (simp add: stop_prefix_def sys_init_def seeds_def foo_raw_def task_step_def foo_do_work_def
                  foo_count_def compare_exchange_weak_def do_thing_step.simps numeral_eq_Suc)
  then have f: "flag ?s" using w_run_padding [of stop_prefix] by (metis truncate_fields(1))
  show ?thesis using padding_worker_stops_after_flag [OF r f, of 1 1 1] by simp
qed

text \<open>C12: In \<^verbatim>\<open>main_seqcst_padding.cpp\<close>, under its memory orders,
  destruction completes after the stop: from any execution with the flag set,
  letting each worker run two steps and then the main thread thirteen steps takes the
  program through the samples, the report and the three destructors'
  \<^verbatim>\<open>join\<close> calls to its end, whatever messages the loads could read.\<close>

theorem padding_main_exits_after_stop:
  assumes "w_reach SeqCstPadding s" and "flag s" and "map erase es = drain_sched"
  shows "pc (w_run SeqCstPadding es s) = M_Exit"
proof -
  have r: "reach SeqCstPadding (sys.truncate s)" by (rule w_reach_padding [OF assms(1)])
  have "sys.truncate (w_run SeqCstPadding es s) = sys_run SeqCstPadding drain_sched (sys.truncate s)"
    using w_run_refines [OF w_reach_ok [OF assms(1)], of SeqCstPadding es] assms(3) by simp
  then have "pc (w_run SeqCstPadding es s) = pc (sys_run SeqCstPadding drain_sched (sys.truncate s))"
    by (metis truncate_fields(3))
  then show ?thesis using drain_sched_exits [OF r] assms(2) by simp
qed

theorem padding_main_exits_after_stop_witness:
  "pc (w_run SeqCstPadding (map (\<lambda>e. case e of Main sp \<Rightarrow> WMain sp 1 | Task k \<Rightarrow> WTask k 1)
                                drain_sched)
        (w_run SeqCstPadding stop_prefix wsys_init)) = M_Exit"
proof -
  let ?s = "w_run SeqCstPadding stop_prefix wsys_init"
  have r: "w_reach SeqCstPadding ?s" by (intro w_reach_run w_reach.init)
  have "flag (sys_run SeqCstPadding (map erase stop_prefix) sys_init)"
    by (simp add: stop_prefix_def sys_init_def seeds_def foo_raw_def task_step_def foo_do_work_def
                  foo_count_def compare_exchange_weak_def do_thing_step.simps numeral_eq_Suc)
  then have f: "flag ?s" using w_run_padding [of stop_prefix] by (metis truncate_fields(1))
  have e: "map erase (map (\<lambda>e. case e of Main sp \<Rightarrow> WMain sp 1 | Task k \<Rightarrow> WTask k 1)
                         drain_sched) = drain_sched"
    by (simp add: drain_sched_def)
  show ?thesis by (rule padding_main_exits_after_stop [OF r f e])
qed

subsection \<open>Initialisation in the padded variant\<close>

text \<open>C9: In \<^verbatim>\<open>main_seqcst_padding.cpp\<close>, where \<^verbatim>\<open>m_v\<close> is declared
  before \<^verbatim>\<open>m_thread\<close>, no worker thread ever touches a counter before its
  initialiser has run, under any schedule.\<close>

theorem padding_counter_initialised_before_use:
  assumes "reach SeqCstPadding s" and "k < 3"
  shows "\<not> uninit_access (objs s ! k)"
  using reach_padding_safe [OF assms(1)] assms(2) by (simp add: inv_safe_def safe_obj_def)

theorem padding_counter_initialised_before_use_witness:
  "\<not> uninit_access (objs (sys_run SeqCstPadding [Main False, Main False, Task 0, Task 0]
                              sys_init) ! 0)"
  by (rule padding_counter_initialised_before_use [OF reach_run [OF reach.init]]) simp

subsection \<open>Scenario A: the counters after construction\<close>

text \<open>C18: Once a worker is constructed, every step of the program (any thread)
  leaves its counter as it is or adds exactly one (modulo \<open>2^32\<close>): the
  counter is single-writer-incremented, so two samples read in order differ by the
  number of increments in between, and are non-decreasing below \<open>INT_MAX\<close>.\<close>

theorem counter_steps_by_one:
  assumes r: "reach v s" and k: "k < 3" and built: "3 * k + 3 \<le> pc_rank (pc s)"
  shows "m_v (objs (sys_step v e s) ! k) = m_v (objs s ! k) \<or>
         m_v (objs (sys_step v e s) ! k) = m_v (objs s ! k) + 1"
proof (cases e)
  case (Task k')
  then show ?thesis by (auto simp: task_step_def nth_list_update)
next
  case (Main sp)
  have shape: "inv_shape s" using reach_sys_inv [OF r] by (simp add: sys_inv_def)
  then have len: "k < length (objs s)" using k by (simp add: inv_shape_def)
  show ?thesis
  proof (cases "is_ctor (pc s)")
    case True
    then obtain k' j where pc: "pc s = M_Ctor k' j" by (cases "pc s") auto
    with shape have "j < 3" by (simp add: inv_shape_def)
    with built pc have "k \<noteq> k'" by auto
    with Main pc show ?thesis by simp
  next
    case False
    from main_step_objs_cases [OF False len, of v sp] Main show ?thesis
      by (auto simp del: main_step.simps dest: foo_dtor_Some)
  qed
qed

theorem counter_steps_by_one_witness:
  "m_v (objs (sys_step SeqCstPadding (Task 0)
                (sys_run SeqCstPadding (replicate 3 (Main False) @ [Task 0]) sys_init)) ! 0) =
   m_v (objs (sys_run SeqCstPadding (replicate 3 (Main False) @ [Task 0]) sys_init) ! 0) + 1"
proof -
  let ?s = "sys_run SeqCstPadding (replicate 3 (Main False) @ [Task 0]) sys_init"
  have r: "reach SeqCstPadding ?s" by (rule reach_run [OF reach.init])
  have p: "3 * 0 + 3 \<le> pc_rank (pc ?s)"
    by (simp add: sys_init_def seeds_def foo_raw_def task_step_def numeral_eq_Suc)
  have ne: "m_v (objs (sys_step SeqCstPadding (Task 0) ?s) ! 0) \<noteq> m_v (objs ?s ! 0)"
    by (simp add: sys_init_def seeds_def foo_raw_def task_step_def foo_do_work_def
                  do_thing_step.simps numeral_eq_Suc)
  from counter_steps_by_one [OF r _ p, of "Task 0"] ne show ?thesis by simp
qed

subsection \<open>Teardown\<close>

text \<open>C10: When \<^verbatim>\<open>main\<close> returns, every worker thread has returned and has been
  joined by \<^verbatim>\<open>~Foo()\<close>: no \<^verbatim>\<open>std::thread\<close> member is destroyed while still
  joinable, which would call \<^verbatim>\<open>std::terminate\<close> ([thread.thread.destr]), and the
  guarded \<^verbatim>\<open>join()\<close> is never called on a thread that is not joinable, which
  would throw \<^verbatim>\<open>std::system_error\<close>.\<close>

theorem exit_all_threads_joined:
  assumes "reach v s" and "pc s = M_Exit"
  shows "\<forall>k<3. \<not> joinable (objs s ! k) \<and> m_thread (objs s ! k) = Finished"
proof (intro allI impI)
  fix k :: nat
  assume k: "k < 3"
  have j: "join_ok (objs s ! k) \<and> \<not> joinable (objs s ! k)"
    using reach_inv_join [OF assms(1)] assms(2) k by (auto simp: inv_join_def)
  have "m_thread (objs s ! k) \<noteq> NotStarted"
    using reach_inv_built [OF assms(1)] assms(2) k by (auto simp: inv_built_def built_def)
  with j show "\<not> joinable (objs s ! k) \<and> m_thread (objs s ! k) = Finished"
    by (auto simp: join_ok_def)
qed

theorem exit_all_threads_joined_witness:
  "\<not> joinable (objs (sys_run AcqRelMain (take 45 (scenario_b_sched AcqRelMain) @ drain_sched)
                      sys_init) ! 1) \<and>
   m_thread (objs (sys_run AcqRelMain (take 45 (scenario_b_sched AcqRelMain) @ drain_sched)
                     sys_init) ! 1) = Finished"
proof -
  let ?s = "sys_run AcqRelMain (take 45 (scenario_b_sched AcqRelMain) @ drain_sched) sys_init"
  have r: "reach AcqRelMain ?s" by (rule reach_run [OF reach.init])
  have p: "pc ?s = M_Exit"
    by (simp add: sys_init_def seeds_def foo_raw_def task_step_def foo_do_work_def drain_sched_def
                  foo_count_def foo_dtor_def compare_exchange_weak_def do_thing_step.simps
                  numeral_eq_Suc)
  show ?thesis using exit_all_threads_joined [OF r p] by simp
qed

subsection \<open>The memory orders\<close>

text \<open>C2: For \<^verbatim>\<open>main_seqcst_padding.cpp\<close>, whose accesses are all
  \<^verbatim>\<open>seq_cst\<close>, the memory model and the interleaving model have the same
  reachable states: projecting the memory-model states gives exactly the states the
  interleavings reach.  So every property of the interleaving model holds of the
  padded program under its memory orders.\<close>

theorem padding_memory_model_equiv:
  "sys.truncate ` {s. w_reach SeqCstPadding s} = {s. reach SeqCstPadding s}"
  using w_reach_padding reach_w_reach by blast

text \<open>C7: The scenario-B bounds hold for \<^verbatim>\<open>main_seqcst_padding.cpp\<close> under its
  memory orders: when the main thread reaches the report, each worker has made at
  most one increment after \<^verbatim>\<open>ckp2\<close>.\<close>

theorem padding_report_bounds_memory_model:
  assumes "w_reach SeqCstPadding s" and "pc s = M_Report"
  shows "(ckp3 s ! 0 = ckp2 s ! 0 + 1 \<or> ckp3 s ! 0 = ckp2 s ! 0 + 2) \<and>
         (ckp3 s ! 1 = ckp2 s ! 1 \<or> ckp3 s ! 1 = ckp2 s ! 1 + 1) \<and>
         (ckp3 s ! 2 = ckp2 s ! 2 \<or> ckp3 s ! 2 = ckp2 s ! 2 + 1)"
  using sys_inv_report_bounds [OF reach_sys_inv [OF w_reach_padding [OF assms(1)]]] assms(2)
  by simp

theorem padding_report_bounds_memory_model_witness:
  "ckp3 (w_run SeqCstPadding (stale_b_sched 2) wsys_init) ! 1 =
   ckp2 (w_run SeqCstPadding (stale_b_sched 2) wsys_init) ! 1"
proof -
  let ?s = "w_run SeqCstPadding (stale_b_sched 2) wsys_init"
  let ?t = "sys_run SeqCstPadding (map erase (stale_b_sched 2)) sys_init"
  have r: "w_reach SeqCstPadding ?s" by (intro w_reach_run w_reach.init)
  have t: "pc ?t = M_Report \<and> ckp3 ?t ! 1 = 2 \<and> ckp2 ?t ! 1 = 2"
    by (simp add: stale_b_sched_def stop_prefix_def spin_def sys_init_def seeds_def foo_raw_def
                  task_step_def foo_do_work_def foo_count_def compare_exchange_weak_def
                  do_thing_step.simps numeral_eq_Suc)
  then have p: "pc ?s = M_Report" and c3: "ckp3 ?s ! 1 = 2" and c2: "ckp2 ?s ! 1 = 2"
    using w_run_padding [of "stale_b_sched 2"] by (metis truncate_fields)+
  then have v: "ckp3 ?s ! 1 \<noteq> ckp2 ?s ! 1 + 1" by simp
  have "ckp3 ?s ! 1 = ckp2 ?s ! 1 \<or> ckp3 ?s ! 1 = ckp2 ?s ! 1 + 1"
    using padding_report_bounds_memory_model [OF r p] by simp
  with v show ?thesis by blast
qed

text \<open>C1: \<^verbatim>\<open>main.cpp\<close> under its release/acquire orders has no such bound:
  for every \<open>n\<close> there is an execution in which \<^verbatim>\<open>b\<close>'s thread keeps reading
  the initial \<open>false\<close> after the stop (nothing synchronises it with the main
  thread's CAS), and the main thread reaches the report with
  \<^verbatim>\<open>ckp3.b = ckp2.b + n\<close>.\<close>

theorem acqrel_worker_runs_on_after_stop:
  "let s = w_run AcqRelMain (stale_b_sched n) wsys_init in
     w_reach AcqRelMain s \<and> pc s = M_Report \<and> flag s \<and> ckp2 s ! 1 = 2 \<and>
     ckp3 s ! 1 = ckp2 s ! 1 + of_nat n"
proof -
  define s2 where "s2 = w_run AcqRelMain (spin n) (w_run AcqRelMain stop_prefix wsys_init)"
  let ?s3 = "w_run AcqRelMain (replicate 5 (WMain False 0)) s2"
  have e: "w_run AcqRelMain (stale_b_sched n) wsys_init = ?s3"
    by (simp add: stale_b_sched_def w_run_append s2_def del: w_run.simps)
  note p = stop_prefix_run
  have s2: "m_v (objs s2 ! 1) = 2 + of_nat n" "pc s2 = M_DoWork" "ckp2 s2 = [10, 2, 3]" "flag s2"
    using spin_run [OF conjunct1 [OF p], of n] p unfolding s2_def by simp_all
  have r2: "w_reach AcqRelMain s2" unfolding s2_def by (intro w_reach_run w_reach.init)
  then have r3: "w_reach AcqRelMain ?s3" by (rule w_reach_run)
  note h = w_ok_hists [OF w_reach_ok [OF r2]]
  have "sys.truncate ?s3 = sys_run AcqRelMain (replicate 5 (Main False)) (sys.truncate s2)"
    using w_run_refines [OF w_reach_ok [OF r2], of AcqRelMain "replicate 5 (WMain False 0)"]
    by (simp add: list_all_iff)
  moreover note d = dowork_to_report [of "sys.truncate s2" AcqRelMain]
  ultimately have "pc ?s3 = M_Report \<and> flag ?s3 \<and> ckp2 ?s3 = [10, 2, 3] \<and>
                   ckp3 ?s3 ! 1 = 2 + of_nat n"
    using s2 h by (metis truncate_fields)
  then show ?thesis using r3 e by (simp add: Let_def)
qed

end
